theory Spec2Isabelle
  imports Main "HOL-Library.Word" "HOL-Library.Sublist"
begin

section \<open>The node model of graph.go\<close>

text \<open>
  Nodes live on the Go heap and are shared by pointer: a directory's link targets, the
  arguments of \<open>Union\<close> and its result are all pointers to the same objects. The model
  makes the heap explicit: an address is a natural number, the heap maps every address to
  the node stored there, and every operation that mutates a node takes the heap and
  returns the updated one. An address always denotes a live node (nil interface values
  are outside the model, except for the optional parent pointer).
\<close>

type_synonym addr = nat
type_synonym byte = "8 word"

type_synonym CollisionAction = string

definition ErrorOnCollision :: CollisionAction where "ErrorOnCollision = ''ERROR''"
definition OverwriteOnCollision :: CollisionAction where "OverwriteOnCollision = ''OVERWRITE''"
definition YieldOnCollision :: CollisionAction where "YieldOnCollision = ''YIELD''"
definition DefaultOnCollision :: CollisionAction where "DefaultOnCollision = ''DEFAULT''"

type_synonym LinkType = string

definition RegularLink :: LinkType where "RegularLink = ''REGULAR''"

definition NODETYPE_DIRECTORY :: string where "NODETYPE_DIRECTORY = ''DIRECTORY''"
definition NODETYPE_FILE :: string where "NODETYPE_FILE = ''FILE''"
definition FILEACTION_COPY :: string where "FILEACTION_COPY = ''COPY''"
definition FILEACTION_TEMPLATE :: string where "FILEACTION_TEMPLATE = ''TEMPLATE''"

record SkaffoldLink =
  Target :: addr
  LinkType :: LinkType
  Name :: string

text \<open>
  The two implementations of the \<open>SkaffoldNode\<close> interface. A nil \<open>datahash\<close> slice is
  the empty list, an unset \<open>content_type\<close> the empty string, a nil parent \<open>None\<close>.
\<close>

datatype SkaffoldNode =
    DirectoryNode (name: string) (children: "SkaffoldLink list") (parent: "addr option")
  | FileNode (name: string) (action: string) (datahash: "byte list")
      (content_type: string) (parent: "addr option")
where
  "children (FileNode n a d c p) = []"
| "action (DirectoryNode n cs p) = []"
| "datahash (DirectoryNode n cs p) = []"
| "content_type (DirectoryNode n cs p) = []"

type_synonym heap = "addr \<Rightarrow> SkaffoldNode"

datatype error =
    NoParent string
  | CannotAddChild string
  | InvalidAction string string
  | MismatchedRoots string string
  | MergingChildren error
  | MergingExternalChildren error

text \<open>The text that \<open>fmt.Errorf\<close> builds for each error.\<close>

fun message :: "error \<Rightarrow> string" where
  "message (NoParent n) = ''node '' @ n @ '' has no parent''"
| "message (CannotAddChild n) = ''cannot add child to a file node '' @ n"
| "message (InvalidAction a n) = ''invalid action '' @ a @ '' for file '' @ n"
| "message (MismatchedRoots k c) = ''mismatched roots: '' @ k @ '' does not match '' @ c"
| "message (MergingChildren e) = ''error merging children: '' @ message e"
| "message (MergingExternalChildren e) = ''error merging external children: '' @ message e"

subsection \<open>Constructors\<close>

definition NewDirectoryNode :: "string \<Rightarrow> SkaffoldNode" where
  "NewDirectoryNode n = DirectoryNode n [] None"

definition NewDirectoryNodeWithParent :: "string \<Rightarrow> addr \<Rightarrow> SkaffoldNode" where
  "NewDirectoryNodeWithParent n p = DirectoryNode n [] (Some p)"

definition HasSuffix :: "string \<Rightarrow> string \<Rightarrow> bool" where
  "HasSuffix s suf \<longleftrightarrow> length suf \<le> length s \<and> drop (length s - length suf) s = suf"

definition NewFileNode :: "string \<Rightarrow> SkaffoldNode" where
  "NewFileNode n =
     FileNode n (if HasSuffix n ''.tmpl'' then FILEACTION_TEMPLATE else FILEACTION_COPY)
       [] [] None"

definition NewFileNodeWithParent :: "string \<Rightarrow> addr \<Rightarrow> SkaffoldNode" where
  "NewFileNodeWithParent n p =
     FileNode n (if HasSuffix n ''.tmpl'' then FILEACTION_TEMPLATE else FILEACTION_COPY)
       [] [] (Some p)"

subsection \<open>The methods of the interface\<close>

definition Key :: "SkaffoldNode \<Rightarrow> string" where
  "Key n = name n"

fun Type :: "SkaffoldNode \<Rightarrow> string" where
  "Type (DirectoryNode n cs p) = NODETYPE_DIRECTORY"
| "Type (FileNode n a d c p) = NODETYPE_FILE"

fun CollisionAction :: "SkaffoldNode \<Rightarrow> CollisionAction" where
  "CollisionAction (DirectoryNode n cs p) = DefaultOnCollision"
| "CollisionAction (FileNode n a d c p) = DefaultOnCollision"

fun Children :: "SkaffoldNode \<Rightarrow> addr list" where
  "Children (DirectoryNode n cs p) = map Target cs"
| "Children (FileNode n a d c p) = []"

fun Parent :: "SkaffoldNode \<Rightarrow> error + addr" where
  "Parent (DirectoryNode n cs None) = Inl (NoParent n)"
| "Parent (DirectoryNode n cs (Some p)) = Inr p"
| "Parent (FileNode n a d c None) = Inl (NoParent n)"
| "Parent (FileNode n a d c (Some p)) = Inr p"

text \<open>
  The mutators of the interface act on the node stored at an address. Each returns Go's
  \<open>error\<close> result (\<open>None\<close> is nil) and the heap after the call. \<open>SetAction\<close> and
  \<open>SetContent\<close> are methods of \<open>*FileNode\<close> only and touch no other object, so they
  are functions on the file node's value, with no equation for a directory.
\<close>

fun SetParent :: "heap \<Rightarrow> addr \<Rightarrow> addr option \<Rightarrow> error option \<times> heap" where
  "SetParent h a p =
     (case h a of
        DirectoryNode n cs q \<Rightarrow> (None, h(a := DirectoryNode n cs p))
      | FileNode n ac d c q \<Rightarrow> (None, h(a := FileNode n ac d c p)))"

fun AddChild :: "heap \<Rightarrow> addr \<Rightarrow> addr \<Rightarrow> error option \<times> heap" where
  "AddChild h a child =
     (case h a of
        DirectoryNode n cs p \<Rightarrow>
          (None,
           h(a := DirectoryNode n
                    (cs @ [\<lparr>Target = child, LinkType = RegularLink, Name = Key (h child)\<rparr>]) p))
      | FileNode n ac d c p \<Rightarrow> (Some (CannotAddChild n), h))"

fun SetAction :: "SkaffoldNode \<Rightarrow> string \<Rightarrow> error option \<times> SkaffoldNode" where
  "SetAction (FileNode n ac d c p) a =
     (if a \<noteq> FILEACTION_COPY \<and> a \<noteq> FILEACTION_TEMPLATE then (Some (InvalidAction a n), FileNode n ac d c p)
      else (None, FileNode n a d c p))"

text \<open>
  \<open>SetContent\<close> calls two library functions that are not part of the repository:
  \<open>filetype.Match\<close>, here the parameter \<open>match\<close> giving the MIME value of the recognised
  kind or \<open>None\<close> for \<open>filetype.Unknown\<close>, and \<open>md5.Sum\<close>, here the parameter \<open>md5sum\<close>.
\<close>

fun SetContent ::
  "(byte list \<Rightarrow> string option) \<Rightarrow> (byte list \<Rightarrow> byte list) \<Rightarrow>
   SkaffoldNode \<Rightarrow> byte list \<Rightarrow> error option \<times> SkaffoldNode" where
  "SetContent match md5sum (FileNode n ac d c p) src =
     (if length src = 0 then (None, FileNode n ac d c p)
      else (None,
            FileNode n ac (md5sum src)
              (case match src of None \<Rightarrow> c | Some mime \<Rightarrow> mime) p))"

section \<open>Union\<close>

record MergeOptions =
  DefaultCollisionAction :: CollisionAction

text \<open>
  The inner double loop of \<open>Union\<close>: the children of the graphs in \<open>add\<close>, graph by
  graph and child by child, whose key is \<open>k\<close>.
\<close>

definition matchingChildrenFromAdd :: "heap \<Rightarrow> addr list \<Rightarrow> string \<Rightarrow> addr list" where
  "matchingChildrenFromAdd h add k =
     concat (map (\<lambda>n_graph. filter (\<lambda>child. Key (h child) = k) (Children (h n_graph))) add)"

text \<open>
  The loop over \<open>control.Children()\<close>. The slice it ranges over was copied by
  \<open>Children()\<close> before the loop started, so the list \<open>cs\<close> is fixed while the heap
  changes under the recursive calls. \<open>rec\<close> is the recursive call of \<open>Union\<close>;
  it returns \<open>None\<close> when it does not return at all.
\<close>

fun merge_children ::
  "(heap \<Rightarrow> addr \<Rightarrow> addr list \<Rightarrow> ((error + addr) \<times> heap) option) \<Rightarrow>
   heap \<Rightarrow> addr list \<Rightarrow> string list \<Rightarrow> addr list \<Rightarrow> ((error + string list) \<times> heap) option" where
  "merge_children rec h add mergedKeys [] = Some (Inr mergedKeys, h)"
| "merge_children rec h add mergedKeys (c # cs) =
     (case rec h c (matchingChildrenFromAdd h add (Key (h c))) of
        None \<Rightarrow> None
      | Some (Inl err, h') \<Rightarrow> Some (Inl (MergingChildren err), h')
      | Some (Inr m, h') \<Rightarrow> merge_children rec h' add (mergedKeys @ [Key (h c)]) cs)"

text \<open>
  The final loop: every child of \<open>addChildren\<close> whose key is not among \<open>mergedKeys\<close> is
  added to \<open>u\<close>. The error of \<open>AddChild\<close> is dropped, as in the source.
\<close>

fun add_new_children :: "heap \<Rightarrow> addr \<Rightarrow> string list \<Rightarrow> addr list \<Rightarrow> heap" where
  "add_new_children h u mergedKeys [] = h"
| "add_new_children h u mergedKeys (childFromAdd # cs) =
     (if Key (h childFromAdd) \<notin> set mergedKeys
      then add_new_children (snd (AddChild h u childFromAdd)) u mergedKeys cs
      else add_new_children h u mergedKeys cs)"

text \<open>
  The body of \<open>Union\<close>, with its recursive calls going through \<open>rec\<close>. The result is
  \<open>None\<close> when a recursive call does not return; otherwise it is the pair of Go's
  result (\<open>Inl\<close> the error, \<open>Inr\<close> the returned node) and the heap after the call.
\<close>

definition Union_body ::
  "(MergeOptions \<Rightarrow> heap \<Rightarrow> addr \<Rightarrow> addr list \<Rightarrow> ((error + addr) \<times> heap) option) \<Rightarrow>
   MergeOptions \<Rightarrow> heap \<Rightarrow> addr \<Rightarrow> addr list \<Rightarrow> ((error + addr) \<times> heap) option" where
  "Union_body rec opts h control add =
     (case add of
        [] \<Rightarrow> Some (Inr control, h)
      | add0 # rest \<Rightarrow>
         (case find (\<lambda>n. Key (h n) \<noteq> Key (h control)) add of
            Some n \<Rightarrow> Some (Inl (MismatchedRoots (Key (h n)) (Key (h control))), h)
          | None \<Rightarrow>
             (case merge_children (rec opts) h add [] (Children (h control)) of
                None \<Rightarrow> None
              | Some (Inl err, h1) \<Rightarrow> Some (Inl err, h1)
              | Some (Inr mergedKeys, h1) \<Rightarrow>
                 (case (if length add > 1 then rec opts h1 add0 rest
                        else Some (Inr add0, h1)) of
                    None \<Rightarrow> None
                  | Some (Inl err, h2) \<Rightarrow> Some (Inl (MergingExternalChildren err), h2)
                  | Some (Inr addChildren, h2) \<Rightarrow>
                     Some (Inr control,
                           add_new_children h2 control mergedKeys
                             (Children (h2 addChildren)))))))"

text \<open>
  \<open>Union\<close> recurses on what it finds in the heap, and on a heap where a directory is
  its own descendant it never returns. \<open>Union_fuel n\<close> is \<open>Union\<close> with its recursion
  cut at depth \<open>n\<close>: a call nested deeper than \<open>n\<close> has the value \<open>None\<close>.
\<close>

primrec Union_fuel ::
  "nat \<Rightarrow> MergeOptions \<Rightarrow> heap \<Rightarrow> addr \<Rightarrow> addr list \<Rightarrow> ((error + addr) \<times> heap) option" where
  "Union_fuel 0 = Union_body (\<lambda>opts h control add. None)"
| "Union_fuel (Suc n) = Union_body (Union_fuel n)"

section \<open>Notions for stating what Union does to the heap\<close>

type_synonym union_fun =
  "MergeOptions \<Rightarrow> heap \<Rightarrow> addr \<Rightarrow> addr list \<Rightarrow> ((error + addr) \<times> heap) option"

type_synonym level = "addr \<Rightarrow> nat"

text \<open>The keys of a list of nodes, and the link that \<open>AddChild\<close> builds for a child.\<close>

definition keys_of :: "heap \<Rightarrow> addr list \<Rightarrow> string list" where
  "keys_of h cs = map (\<lambda>c. Key (h c)) cs"

definition new_link :: "heap \<Rightarrow> addr \<Rightarrow> SkaffoldLink" where
  "new_link h c = \<lparr>Target = c, LinkType = RegularLink, Name = Key (h c)\<rparr>"

definition is_dir :: "SkaffoldNode \<Rightarrow> bool" where
  "is_dir n \<longleftrightarrow> Type n = NODETYPE_DIRECTORY"

text \<open>
  \<open>heap_ext h h'\<close>: the heap \<open>h'\<close> is \<open>h\<close> with links appended to directories, where no
  appended link has the key of a child the directory had in \<open>h\<close>. File nodes, names and
  parents are the same. \<open>heap_grows\<close> is the weaker relation that only says that
  children lists were extended at their end.
\<close>

definition node_ext :: "heap \<Rightarrow> SkaffoldNode \<Rightarrow> SkaffoldNode \<Rightarrow> bool" where
  "node_ext h n n' =
     (case n of
        DirectoryNode nm cs p \<Rightarrow>
          (\<exists>new. n' = DirectoryNode nm (cs @ new) p \<and>
             (\<forall>l \<in> set new. Key (h (Target l)) \<notin> set (keys_of h (map Target cs))))
      | FileNode nm ac d c p \<Rightarrow> n' = n)"

definition heap_ext :: "heap \<Rightarrow> heap \<Rightarrow> bool" where
  "heap_ext h h' = (\<forall>a. node_ext h (h a) (h' a))"

definition heap_grows :: "heap \<Rightarrow> heap \<Rightarrow> bool" where
  "heap_grows h h' =
     (\<forall>a. Key (h' a) = Key (h a) \<and> is_dir (h' a) = is_dir (h a) \<and>
          prefix (Children (h a)) (Children (h' a)))"

text \<open>
  The inputs of \<open>Union\<close> are trees built by the traversal: every child sits one level
  below its parent, and no node lies deeper than some bound \<open>D\<close>. \<open>graded lvl D h\<close> says
  so for the whole heap, with \<open>lvl\<close> giving the level of every address. Trees that share
  no node, and trees that share subtrees at equal depth, are graded; a directory that is
  its own descendant is not.
\<close>

definition graded :: "level \<Rightarrow> nat \<Rightarrow> heap \<Rightarrow> bool" where
  "graded lvl D h = (\<forall>a. \<forall>c \<in> set (Children (h a)). lvl c = Suc (lvl a) \<and> lvl a < D)"

text \<open>
  The combined view of a list of trees, as the specification words it: the children of
  the first tree, then those children of the combined view of the remaining trees whose
  key the first tree does not have. A file node takes no children, so nothing follows
  the children of a tree whose root is a file.
\<close>

fun overlay_children :: "heap \<Rightarrow> addr list \<Rightarrow> addr list" where
  "overlay_children h [] = []"
| "overlay_children h (a # as) =
     Children (h a) @
     (if is_dir (h a)
      then filter (\<lambda>c. Key (h c) \<notin> set (keys_of h (Children (h a)))) (overlay_children h as)
      else [])"

text \<open>
  Properties of a function that stands for the recursive call of \<open>Union\<close>. They are
  proved for \<open>Union_body rec\<close> from \<open>rec\<close>, and so for every \<open>Union_fuel n\<close>.
  \<open>rec_sound\<close>: a call only extends the heap and, when the root keys agree, returns its
  control node. \<open>rec_le\<close>: the second function returns whatever the first returns.
  \<open>rec_frame\<close>: on a graded heap, a call leaves the heap graded and touches no node above
  the level of its arguments, and at that level only the control node and the overlays
  but the last. \<open>rec_exact\<close>: on a graded heap with distinct arguments, the children of
  each argument after the call are the combined view of it and the arguments after it.
\<close>

definition rec_sound :: "union_fun \<Rightarrow> bool" where
  "rec_sound rec =
     (\<forall>opts h c as r h'. rec opts h c as = Some (r, h') \<longrightarrow>
        heap_ext h h' \<and> ((\<forall>n \<in> set as. Key (h n) = Key (h c)) \<longrightarrow> r = Inr c))"

definition rec_le :: "union_fun \<Rightarrow> union_fun \<Rightarrow> bool" where
  "rec_le f g = (\<forall>opts h c as x. f opts h c as = Some x \<longrightarrow> g opts h c as = Some x)"

definition rec_frame :: "level \<Rightarrow> nat \<Rightarrow> union_fun \<Rightarrow> bool" where
  "rec_frame lvl D rec =
     (\<forall>opts h c as r h'.
        rec opts h c as = Some (r, h') \<and> graded lvl D h \<and> (\<forall>n \<in> set as. lvl n = lvl c) \<longrightarrow>
        graded lvl D h' \<and>
        (\<forall>a. lvl a \<le> lvl c \<and> a \<noteq> c \<and> a \<notin> set (butlast as) \<longrightarrow> h' a = h a))"

definition rec_exact :: "level \<Rightarrow> nat \<Rightarrow> union_fun \<Rightarrow> bool" where
  "rec_exact lvl D rec =
     (\<forall>opts h c as r h'.
        rec opts h c as = Some (Inr r, h') \<and> graded lvl D h \<and> (\<forall>n \<in> set as. lvl n = lvl c) \<and>
        distinct (c # as) \<longrightarrow>
        (\<forall>i < length (c # as). Children (h' ((c # as) ! i)) = overlay_children h (drop i (c # as))))"

text \<open>
  The key paths from a node down to depth \<open>n\<close>: the node's own key, then for each child
  the child's paths under that key.
\<close>

primrec paths :: "nat \<Rightarrow> heap \<Rightarrow> addr \<Rightarrow> string list list" where
  "paths 0 h a = [[Key (h a)]]"
| "paths (Suc n) h a =
     [Key (h a)] # concat (map (\<lambda>c. map ((#) (Key (h a))) (paths n h c)) (Children (h a)))"

text \<open>The nodes met from a node down to depth \<open>n\<close>, parents before children.\<close>

primrec nodes :: "nat \<Rightarrow> heap \<Rightarrow> addr \<Rightarrow> addr list" where
  "nodes 0 h a = [a]"
| "nodes (Suc n) h a = a # concat (map (nodes n h) (Children (h a)))"




section \<open>Example heaps\<close>

text \<open>
  A heap in which no node has been built yet: every address holds a file with no name,
  so no address has children. The examples below allocate their nodes in it.
\<close>

definition no_nodes :: heap where
  "no_nodes = (\<lambda>a. NewFileNode [])"

text \<open>Levels for heaps of depth at most two: the roots, the nodes below them, the rest.\<close>

definition tree_level :: "addr list \<Rightarrow> addr list \<Rightarrow> level" where
  "tree_level roots mids a = (if a \<in> set roots then 0 else if a \<in> set mids then 1 else 2)"

text \<open>
  The two graphs of \<open>TestUnion_MergeTwoGraphs\<close>, built by the calls the test makes, with
  the keys as parameters. Control: root 0, dir1 1, f1 2, f_root 3. Overlay: root 4,
  dir1 5, f2 6, dir2 7, f3 8, f_add 9.
\<close>

definition two_graphs ::
  "string \<Rightarrow> string \<Rightarrow> string \<Rightarrow> string \<Rightarrow> string \<Rightarrow> string \<Rightarrow> string \<Rightarrow> string \<Rightarrow> heap" where
  "two_graphs root dir1 f1 f_root f2 dir2 f3 f_add =
     (let h = no_nodes(2 := NewFileNode f1, 1 := NewDirectoryNode dir1);
          h = snd (AddChild h 1 2);
          h = h(3 := NewFileNode f_root, 0 := NewDirectoryNode root);
          h = snd (AddChild h 0 1);
          h = snd (AddChild h 0 3);
          h = h(6 := NewFileNode f2, 5 := NewDirectoryNode dir1);
          h = snd (AddChild h 5 6);
          h = h(8 := NewFileNode f3, 7 := NewDirectoryNode dir2);
          h = snd (AddChild h 7 8);
          h = h(9 := NewFileNode f_add, 4 := NewDirectoryNode root);
          h = snd (AddChild h 4 5);
          h = snd (AddChild h 4 7);
          h = snd (AddChild h 4 9)
      in h)"

text \<open>
  Two trees with root key \<open>root\<close>, each holding a file \<open>x\<close>; the two files have
  different fingerprints. Control: root 0, x 1. Overlay: root 2, x 3.
\<close>

definition collision_heap :: heap where
  "collision_heap =
     (let h = no_nodes(1 := FileNode ''x'' FILEACTION_COPY [0x01] [] None,
                       0 := NewDirectoryNode ''root'');
          h = snd (AddChild h 0 1);
          h = h(3 := FileNode ''x'' FILEACTION_COPY [0x02] [] None,
                2 := NewDirectoryNode ''root'');
          h = snd (AddChild h 2 3)
      in h)"

text \<open>
  Two trees with root key \<open>root\<close>: the control (root 0) holds a file \<open>y\<close> (1), the
  overlay (root 2) a directory \<open>y\<close> (3) with a file \<open>z\<close> (4) in it.
\<close>

definition mismatch_heap :: heap where
  "mismatch_heap =
     (let h = no_nodes(1 := NewFileNode ''y'', 0 := NewDirectoryNode ''root'');
          h = snd (AddChild h 0 1);
          h = h(4 := NewFileNode ''z'', 3 := NewDirectoryNode ''y'');
          h = snd (AddChild h 3 4);
          h = h(2 := NewDirectoryNode ''root'');
          h = snd (AddChild h 2 3)
      in h)"

text \<open>Two empty directories with the keys \<open>a\<close> (0) and \<open>b\<close> (1).\<close>

definition two_roots :: heap where
  "two_roots = no_nodes(0 := NewDirectoryNode ''a'', 1 := NewDirectoryNode ''b'')"


section \<open>How Union changes the heap\<close>

subsection \<open>Unfolding the body\<close>

text \<open>
  The equations of \<open>Union_body\<close> for an empty overlay list, for a root key that differs, and
  for root keys that agree.
\<close>

lemma Union_fuel_Nil: "Union_fuel n opts h T [] = Some (Inr T, h)"
  by (cases n) (simp_all add: Union_body_def)

lemma find_None_keys:
  "find (\<lambda>n. Key (h n) \<noteq> k) add = None \<longleftrightarrow> (\<forall>n \<in> set add. Key (h n) = k)"
  by (auto simp: find_None_iff)

lemma Union_body_mismatch:
  assumes "find (\<lambda>n. Key (h n) \<noteq> Key (h control)) add = Some n"
  shows "Union_body rec opts h control add =
           Some (Inl (MismatchedRoots (Key (h n)) (Key (h control))), h)"
proof (cases add)
  case Nil
  with assms show ?thesis by simp
next
  case (Cons add0 rest)
  then have "Union_body rec opts h control add =
      (case find (\<lambda>n. Key (h n) \<noteq> Key (h control)) add of
            Some n \<Rightarrow> Some (Inl (MismatchedRoots (Key (h n)) (Key (h control))), h)
          | None \<Rightarrow>
             (case merge_children (rec opts) h add [] (Children (h control)) of
                None \<Rightarrow> None
              | Some (Inl err, h1) \<Rightarrow> Some (Inl err, h1)
              | Some (Inr mergedKeys, h1) \<Rightarrow>
                 (case (if length add > 1 then rec opts h1 add0 rest
                        else Some (Inr add0, h1)) of
                    None \<Rightarrow> None
                  | Some (Inl err, h2) \<Rightarrow> Some (Inl (MergingExternalChildren err), h2)
                  | Some (Inr addChildren, h2) \<Rightarrow>
                     Some (Inr control,
                           add_new_children h2 control mergedKeys
                             (Children (h2 addChildren))))))"
    unfolding Union_body_def by (simp only: list.case)
  then show ?thesis by (simp only: assms option.case)
qed

lemma Union_body_match:
  assumes "\<forall>n \<in> set (add0 # rest). Key (h n) = Key (h control)"
  shows "Union_body rec opts h control (add0 # rest) =
     (case merge_children (rec opts) h (add0 # rest) [] (Children (h control)) of
        None \<Rightarrow> None
      | Some (Inl err, h1) \<Rightarrow> Some (Inl err, h1)
      | Some (Inr mergedKeys, h1) \<Rightarrow>
         (case (if rest \<noteq> [] then rec opts h1 add0 rest else Some (Inr add0, h1)) of
            None \<Rightarrow> None
          | Some (Inl err, h2) \<Rightarrow> Some (Inl (MergingExternalChildren err), h2)
          | Some (Inr addChildren, h2) \<Rightarrow>
             Some (Inr control,
                   add_new_children h2 control mergedKeys (Children (h2 addChildren)))))"
proof -
  have f: "find (\<lambda>n. Key (h n) \<noteq> Key (h control)) (add0 # rest) = None"
    using assms by (simp only: find_None_keys)
  have l: "length (add0 # rest) > 1 \<longleftrightarrow> rest \<noteq> []" by (cases rest) simp_all
  show ?thesis
    unfolding Union_body_def by (simp only: list.case f option.case l)
qed

lemma Union_fuel_mismatch:
  assumes "find (\<lambda>n. Key (h n) \<noteq> Key (h control)) add = Some k"
  shows "Union_fuel fuel opts h control add =
           Some (Inl (MismatchedRoots (Key (h k)) (Key (h control))), h)"
  by (cases fuel) (simp_all add: Union_body_mismatch [OF assms])

text \<open>The merge options are handed down to every recursive call and never read.\<close>

lemma Union_body_ignores_options:
  assumes "rec opts = rec opts'"
  shows "Union_body rec opts = Union_body rec opts'"
  unfolding Union_body_def assms ..

lemma Union_fuel_ignores_options:
  "Union_fuel n opts = Union_fuel n opts'"
proof (induction n)
  case 0
  show ?case unfolding Union_fuel.simps by (rule Union_body_ignores_options) (rule refl)
next
  case (Suc n)
  show ?case unfolding Union_fuel.simps by (rule Union_body_ignores_options) (rule Suc.IH)
qed

subsection \<open>A call only extends the heap\<close>

text \<open>
  Whatever \<open>Union\<close> returns, the heap after the call extends the heap before it, and with
  agreeing root keys the result is the control node.
\<close>

lemma node_ext_refl: "node_ext h n n"
  by (cases n) (simp_all add: node_ext_def)

lemma heap_ext_refl: "heap_ext h h"
  by (simp add: heap_ext_def node_ext_refl)

lemma node_ext_name: "node_ext h n n' \<Longrightarrow> name n' = name n"
  by (cases n) (auto simp: node_ext_def)

lemma heap_extD: "heap_ext h h' \<Longrightarrow> node_ext h (h a) (h' a)"
  by (simp add: heap_ext_def)

lemma heap_ext_Key: "heap_ext h h' \<Longrightarrow> Key (h' a) = Key (h a)"
  by (auto simp: heap_ext_def Key_def intro: node_ext_name)

lemma heap_ext_keys_of: "heap_ext h h' \<Longrightarrow> keys_of h' cs = keys_of h cs"
  by (simp add: keys_of_def heap_ext_Key)

lemma heap_ext_trans:
  assumes "heap_ext h h1" and "heap_ext h1 h2"
  shows "heap_ext h h2"
  unfolding heap_ext_def
proof
  fix a
  have k: "\<And>x. Key (h1 x) = Key (h x)" using assms(1) by (rule heap_ext_Key)
  have 1: "node_ext h (h a) (h1 a)" using assms(1) by (simp add: heap_ext_def)
  have 2: "node_ext h1 (h1 a) (h2 a)" using assms(2) by (simp add: heap_ext_def)
  show "node_ext h (h a) (h2 a)"
  proof (cases "h a")
    case (DirectoryNode nm cs p)
    from 1 DirectoryNode obtain new1 where
      n1: "h1 a = DirectoryNode nm (cs @ new1) p"
      and f1: "\<forall>l \<in> set new1. Key (h (Target l)) \<notin> set (keys_of h (map Target cs))"
      by (auto simp: node_ext_def)
    from 2 n1 obtain new2 where
      n2: "h2 a = DirectoryNode nm ((cs @ new1) @ new2) p"
      and f2: "\<forall>l \<in> set new2. Key (h1 (Target l)) \<notin> set (keys_of h1 (map Target (cs @ new1)))"
      by (auto simp: node_ext_def)
    have "\<forall>l \<in> set (new1 @ new2). Key (h (Target l)) \<notin> set (keys_of h (map Target cs))"
      using f1 f2 by (auto simp: keys_of_def k)
    with n2 DirectoryNode show ?thesis
      unfolding node_ext_def by (simp del: set_append)
  next
    case FileNode
    with 1 2 show ?thesis by (simp add: node_ext_def)
  qed
qed

lemma heap_ext_Children:
  assumes "heap_ext h h'"
  shows "\<exists>new. Children (h' a) = Children (h a) @ new \<and>
           (\<forall>c \<in> set new. Key (h c) \<notin> set (keys_of h (Children (h a))))"
proof (cases "h a")
  case (DirectoryNode nm cs p)
  with heap_extD [OF assms, of a] obtain new where
    "h' a = DirectoryNode nm (cs @ new) p"
    "\<forall>l \<in> set new. Key (h (Target l)) \<notin> set (keys_of h (map Target cs))"
    by (auto simp: node_ext_def)
  with DirectoryNode show ?thesis
    by (intro exI [of _ "map Target new"]) simp
next
  case (FileNode nm ac d c p)
  with heap_extD [OF assms, of a] show ?thesis by (simp add: node_ext_def)
qed

lemma heap_ext_File:
  "heap_ext h h' \<Longrightarrow> h a = FileNode nm ac d c p \<Longrightarrow> h' a = FileNode nm ac d c p"
  using heap_extD [of h h' a] by (simp add: node_ext_def)

lemma heap_ext_Type: "heap_ext h h' \<Longrightarrow> Type (h' a) = Type (h a)"
  using heap_extD [of h h' a] by (cases "h a") (auto simp: node_ext_def)

lemma heap_ext_same_key:
  assumes e: "heap_ext h h'" and x: "x \<in> set (Children (h d))"
  shows "x \<in> set (Children (h' d))"
    and "c \<in> set (Children (h' d)) \<Longrightarrow> Key (h' c) = Key (h x) \<Longrightarrow> c \<in> set (Children (h d))"
proof -
  from heap_ext_Children [OF e, of d] obtain new where
    n: "Children (h' d) = Children (h d) @ new"
    and f: "\<forall>c \<in> set new. Key (h c) \<notin> set (keys_of h (Children (h d)))" by blast
  from n x show "x \<in> set (Children (h' d))" by simp
  assume c: "c \<in> set (Children (h' d))" and k: "Key (h' c) = Key (h x)"
  have "Key (h c) \<in> set (keys_of h (Children (h d)))"
    using x k by (simp add: heap_ext_Key [OF e] keys_of_def)
  with f have "c \<notin> set new" by blast
  with c n show "c \<in> set (Children (h d))" by simp
qed

lemma is_dir_simps [simp]:
  "is_dir (DirectoryNode nm cs p)" "\<not> is_dir (FileNode nm ac d c p)"
  by (simp_all add: is_dir_def NODETYPE_DIRECTORY_def NODETYPE_FILE_def)

lemma not_is_dir_Children: "\<not> is_dir n \<Longrightarrow> Children n = []"
  by (cases n) simp_all

lemma add_new_children_File:
  "h u = FileNode n ac d c p \<Longrightarrow> add_new_children h u ks cs = h"
  by (induction cs arbitrary: h) simp_all

lemma add_new_children_Dir:
  "h u = DirectoryNode nm ch p \<Longrightarrow>
   add_new_children h u ks cs =
     h(u := DirectoryNode nm (ch @ map (new_link h) (filter (\<lambda>c. Key (h c) \<notin> set ks) cs)) p)"
proof (induction cs arbitrary: h ch)
  case Nil
  then show ?case by auto
next
  case (Cons c cs)
  show ?case
  proof (cases "Key (h c) \<in> set ks")
    case True
    with Cons show ?thesis by simp
  next
    case False
    let ?h = "h(u := DirectoryNode nm (ch @ [new_link h c]) p)"
    have k: "\<And>x. Key (?h x) = Key (h x)" by (simp add: Key_def Cons.prems)
    have nl: "new_link ?h = new_link h" using k unfolding new_link_def by auto
    have fl: "(\<lambda>c. Key (?h c) \<notin> set ks) = (\<lambda>c. Key (h c) \<notin> set ks)" by (simp only: k)
    have "add_new_children h u ks (c # cs) = add_new_children ?h u ks cs"
      using False Cons.prems by (simp add: new_link_def)
    also have "\<dots> = ?h(u := DirectoryNode nm ((ch @ [new_link h c]) @ map (new_link ?h) (filter (\<lambda>c. Key (?h c) \<notin> set ks) cs)) p)"
      by (rule Cons.IH) simp
    also have "\<dots> = h(u := DirectoryNode nm (ch @ map (new_link h) (filter (\<lambda>c. Key (h c) \<notin> set ks) (c # cs))) p)"
      unfolding nl fl using False by simp
    finally show ?thesis .
  qed
qed

lemma Children_add_new_children:
  "Children (add_new_children h u ks cs a) =
     (if a = u \<and> is_dir (h u) then Children (h u) @ filter (\<lambda>c. Key (h c) \<notin> set ks) cs
      else Children (h a))"
proof (cases "h u")
  case (DirectoryNode nm ch p)
  then show ?thesis
    by (simp add: add_new_children_Dir [where h = h and u = u] new_link_def comp_def)
next
  case (FileNode nm ac d c p)
  then show ?thesis by (simp add: add_new_children_File)
qed

lemma add_new_children_other: "a \<noteq> u \<Longrightarrow> add_new_children h u ks cs a = h a"
  by (cases "h u") (simp_all add: add_new_children_Dir [where h = h and u = u] add_new_children_File)



lemma heap_ext_add_new_children:
  assumes e: "heap_ext h h2"
  shows "heap_ext h (add_new_children h2 u (keys_of h (Children (h u))) cs)"
proof (cases "h u")
  case (FileNode n ac d c p)
  with heap_extD [OF e, of u] have "h2 u = FileNode n ac d c p"
    by (simp add: node_ext_def)
  then show ?thesis using e by (simp add: add_new_children_File)
next
  case (DirectoryNode nm ch p)
  with heap_extD [OF e, of u] obtain new where h2u: "h2 u = DirectoryNode nm (ch @ new) p"
    and fresh: "\<forall>l \<in> set new. Key (h (Target l)) \<notin> set (keys_of h (map Target ch))"
    by (auto simp: node_ext_def)
  let ?ks = "keys_of h (Children (h u))"
  let ?new = "map (new_link h2) (filter (\<lambda>c. Key (h2 c) \<notin> set ?ks) cs)"
  have eq: "add_new_children h2 u ?ks cs = h2(u := DirectoryNode nm ((ch @ new) @ ?new) p)"
    using h2u by (rule add_new_children_Dir [where h = h2 and u = u])
  have "\<forall>l \<in> set ?new. Key (h (Target l)) \<notin> set ?ks"
    by (auto simp: new_link_def heap_ext_Key [OF e])
  with fresh have "\<forall>l \<in> set (new @ ?new). Key (h (Target l)) \<notin> set (keys_of h (map Target ch))"
    using DirectoryNode by auto
  then have "node_ext h (h u) (DirectoryNode nm (ch @ (new @ ?new)) p)"
    using DirectoryNode unfolding node_ext_def by (simp del: set_append)
  then show ?thesis
    using e unfolding eq heap_ext_def by simp
qed

lemma matching_Key:
  "n \<in> set (matchingChildrenFromAdd h add k) \<Longrightarrow> Key (h n) = k"
  by (auto simp: matchingChildrenFromAdd_def)

lemma merge_children_sound:
  assumes "rec_sound rec"
  shows "merge_children (rec opts) h add ks cs = Some (r, h') \<Longrightarrow>
         heap_ext h h' \<and> r = Inr (ks @ keys_of h cs)"
proof (induction cs arbitrary: h ks)
  case Nil
  then show ?case by (simp add: heap_ext_refl keys_of_def)
next
  case (Cons c cs)
  let ?m = "matchingChildrenFromAdd h add (Key (h c))"
  from Cons.prems obtain r0 h0 where r0: "rec opts h c ?m = Some (r0, h0)"
    by (cases "rec opts h c ?m") auto
  have "\<forall>n \<in> set ?m. Key (h n) = Key (h c)" by (simp add: matching_Key)
  with assms r0 have e0: "heap_ext h h0" and "r0 = Inr c"
    unfolding rec_sound_def by blast+
  with Cons.prems r0 have "merge_children (rec opts) h0 add (ks @ [Key (h c)]) cs = Some (r, h')"
    by simp
  from Cons.IH [OF this] have e1: "heap_ext h0 h'" and r: "r = Inr ((ks @ [Key (h c)]) @ keys_of h0 cs)"
    by simp_all
  from e0 e1 have "heap_ext h h'" by (rule heap_ext_trans)
  moreover have "r = Inr (ks @ keys_of h (c # cs))"
    using r heap_ext_keys_of [OF e0] by (simp add: keys_of_def)
  ultimately show ?case by simp
qed

lemma Union_body_cases:
  assumes rs: "rec_sound rec"
    and U: "Union_body rec opts h control add = Some (r, h')"
  obtains
    (empty) "add = []" "r = Inr control" "h' = h"
  | (mismatch) n where "n \<in> set add" "Key (h n) \<noteq> Key (h control)"
      "r = Inl (MismatchedRoots (Key (h n)) (Key (h control)))" "h' = h"
  | (merged) add0 rest h1 h2 where "add = add0 # rest"
      "\<forall>n \<in> set add. Key (h n) = Key (h control)"
      "merge_children (rec opts) h add [] (Children (h control)) =
         Some (Inr (keys_of h (Children (h control))), h1)"
      "rest \<noteq> [] \<Longrightarrow> rec opts h1 add0 rest = Some (Inr add0, h2)"
      "rest = [] \<Longrightarrow> h2 = h1"
      "r = Inr control"
      "h' = add_new_children h2 control (keys_of h (Children (h control))) (Children (h2 add0))"
proof (cases "find (\<lambda>n. Key (h n) \<noteq> Key (h control)) add")
  case (Some n)
  then have "n \<in> set add" "Key (h n) \<noteq> Key (h control)"
    by (auto simp: find_Some_iff)
  moreover from U Union_body_mismatch [OF Some, of rec opts]
  have "r = Inl (MismatchedRoots (Key (h n)) (Key (h control)))" "h' = h"
    by auto
  ultimately show ?thesis by (rule mismatch)
next
  case None
  then have keys: "\<forall>n \<in> set add. Key (h n) = Key (h control)"
    by (simp only: find_None_keys)
  show ?thesis
  proof (cases add)
    case Nil
    with U show ?thesis by (intro empty) (simp_all add: Union_body_def)
  next
    case (Cons add0 rest)
    let ?cs = "Children (h control)"
    note ub = Union_body_match [OF keys [unfolded Cons], of rec opts, folded Cons]
    from U ub obtain r1 h1 where
      m: "merge_children (rec opts) h add [] ?cs = Some (r1, h1)"
      by (cases "merge_children (rec opts) h add [] ?cs") auto
    from merge_children_sound [OF rs m] have e1: "heap_ext h h1"
      and r1: "r1 = Inr (keys_of h ?cs)" by simp_all
    define step2 where "step2 = (if rest \<noteq> [] then rec opts h1 add0 rest else Some (Inr add0, h1))"
    from U ub m r1 obtain r2 h2 where s2: "step2 = Some (r2, h2)"
      unfolding step2_def
      by (cases "if rest \<noteq> [] then rec opts h1 add0 rest else Some (Inr add0, h1)") auto
    have r2: "r2 = Inr add0"
    proof (cases "rest = []")
      case False
      with s2 have rr: "rec opts h1 add0 rest = Some (r2, h2)" by (simp add: step2_def)
      have "\<forall>n \<in> set rest. Key (h1 n) = Key (h1 add0)"
        using keys Cons by (simp add: heap_ext_Key [OF e1])
      with rs rr show ?thesis unfolding rec_sound_def by blast
    next
      case True
      with s2 show ?thesis by (simp add: step2_def)
    qed
    have a: "rest \<noteq> [] \<Longrightarrow> rec opts h1 add0 rest = Some (Inr add0, h2)"
      using s2 r2 by (simp add: step2_def)
    have b: "rest = [] \<Longrightarrow> h2 = h1"
      using s2 by (simp add: step2_def)
    from U ub m r1 s2 r2 have
      "r = Inr control" and
      "h' = add_new_children h2 control (keys_of h ?cs) (Children (h2 add0))"
      unfolding step2_def by simp_all
    with Cons keys m r1 a b show ?thesis by (intro merged [of add0 rest h1 h2]) simp_all
  qed
qed

lemma Union_body_sound:
  assumes rs: "rec_sound rec"
  shows "rec_sound (Union_body rec)"
  unfolding rec_sound_def
proof (intro allI impI)
  fix opts h control add r h'
  assume U: "Union_body rec opts h control add = Some (r, h')"
  from rs U
  show "heap_ext h h' \<and> ((\<forall>n \<in> set add. Key (h n) = Key (h control)) \<longrightarrow> r = Inr control)"
  proof (cases rule: Union_body_cases)
    case empty
    then show ?thesis by (simp add: heap_ext_refl)
  next
    case (mismatch n)
    then show ?thesis using heap_ext_refl [of h] by blast
  next
    case (merged add0 rest h1 h2)
    from merge_children_sound [OF rs merged(3)] have e1: "heap_ext h h1" by simp
    have e2: "heap_ext h1 h2"
    proof (cases "rest = []")
      case True
      with merged(5) show ?thesis by (simp add: heap_ext_refl)
    next
      case False
      from merged(4) [OF this] rs show ?thesis unfolding rec_sound_def by blast
    qed
    from e1 e2 have "heap_ext h h2" by (rule heap_ext_trans)
    from heap_ext_add_new_children [OF this] merged(6,7) show ?thesis by simp
  qed
qed

lemma Union_fuel_sound: "rec_sound (Union_fuel n)"
proof (induction n)
  case 0
  have "rec_sound (\<lambda>opts h control add. None)" by (simp add: rec_sound_def)
  then show ?case by (simp add: Union_body_sound)
next
  case (Suc n)
  then show ?case by (simp add: Union_body_sound)
qed

lemma Union_fuel_unfold:
  obtains rec where "Union_fuel n = Union_body rec" "rec_sound rec"
    "rec = (\<lambda>opts h control add. None) \<or> (\<exists>m. rec = Union_fuel m)"
proof (cases n)
  case 0
  have "rec_sound (\<lambda>opts h control add. None)" by (simp add: rec_sound_def)
  with 0 show ?thesis by (intro that [of "\<lambda>opts h control add. None"]) simp_all
next
  case (Suc m)
  then show ?thesis using Union_fuel_sound [of m] by (intro that [of "Union_fuel m"]) auto
qed

lemma Union_fuel_Inr:
  assumes "Union_fuel n opts h control add = Some (Inr r, h')"
  shows "r = control" and "\<forall>a \<in> set add. Key (h a) = Key (h control)"
proof -
  obtain rec where u: "Union_fuel n = Union_body rec" and rs: "rec_sound rec"
    by (rule Union_fuel_unfold)
  from assms have U: "Union_body rec opts h control add = Some (Inr r, h')" by (simp add: u)
  from rs U show "r = control" by (cases rule: Union_body_cases) simp_all
  from rs U show "\<forall>a \<in> set add. Key (h a) = Key (h control)"
    by (cases rule: Union_body_cases) simp_all
qed

subsection \<open>More recursion depth does not change a result\<close>

text \<open>
  A call that returns at depth \<open>m\<close> returns the same at every greater depth, so the result
  of a call does not depend on the depth at which it is read.
\<close>

lemma merge_children_mono:
  assumes "rec_le f g"
  shows "merge_children (f opts) h add ks cs = Some x \<Longrightarrow>
         merge_children (g opts) h add ks cs = Some x"
proof (induction cs arbitrary: h ks)
  case Nil
  then show ?case by simp
next
  case (Cons c cs)
  let ?m = "matchingChildrenFromAdd h add (Key (h c))"
  from Cons.prems obtain r0 h0 where f: "f opts h c ?m = Some (r0, h0)"
    by (cases "f opts h c ?m") auto
  with assms have g: "g opts h c ?m = Some (r0, h0)" unfolding rec_le_def by blast
  show ?case
  proof (cases r0)
    case (Inl e)
    with Cons.prems f g show ?thesis by simp
  next
    case (Inr m)
    with Cons.prems f have "merge_children (f opts) h0 add (ks @ [Key (h c)]) cs = Some x" by simp
    from Cons.IH [OF this] g Inr show ?thesis by simp
  qed
qed

lemma Union_body_mono:
  assumes le: "rec_le f g"
  shows "rec_le (Union_body f) (Union_body g)"
  unfolding rec_le_def
proof (intro allI impI)
  fix opts h control add x
  assume U: "Union_body f opts h control add = Some x"
  show "Union_body g opts h control add = Some x"
  proof (cases "find (\<lambda>n. Key (h n) \<noteq> Key (h control)) add")
    case (Some n)
    from U show ?thesis
      by (simp only: Union_body_mismatch [OF Some])
  next
    case None
    then have keys: "\<forall>n \<in> set add. Key (h n) = Key (h control)"
      by (simp only: find_None_keys)
    show ?thesis
    proof (cases add)
      case Nil
      with U show ?thesis by (simp add: Union_body_def)
    next
      case (Cons add0 rest)
      let ?cs = "Children (h control)"
      note uf = Union_body_match [OF keys [unfolded Cons], of f opts, folded Cons]
      note ug = Union_body_match [OF keys [unfolded Cons], of g opts, folded Cons]
      from U uf obtain r1 h1 where
        m: "merge_children (f opts) h add [] ?cs = Some (r1, h1)"
        by (cases "merge_children (f opts) h add [] ?cs") auto
      from merge_children_mono [OF le m]
      have m': "merge_children (g opts) h add [] ?cs = Some (r1, h1)" .
      show ?thesis
      proof (cases r1)
        case (Inl e)
        with U uf ug m m' show ?thesis by simp
      next
        case (Inr ks)
        show ?thesis
        proof (cases "rest = []")
          case True
          with U uf ug m m' Inr show ?thesis by simp
        next
          case False
          with U uf m Inr obtain y where f2: "f opts h1 add0 rest = Some y"
            by (cases "f opts h1 add0 rest") auto
          with le have "g opts h1 add0 rest = Some y" unfolding rec_le_def by blast
          with U uf ug m m' Inr False f2 show ?thesis by simp
        qed
      qed
    qed
  qed
qed

lemma Union_fuel_Suc_le: "rec_le (Union_fuel n) (Union_fuel (Suc n))"
proof (induction n)
  case 0
  have "rec_le (\<lambda>opts h control add. None) (Union_fuel 0)" by (simp add: rec_le_def)
  from Union_body_mono [OF this] show ?case by simp
next
  case (Suc n)
  then show ?case by (simp add: Union_body_mono)
qed

lemma Union_fuel_mono:
  "Union_fuel m opts h c as = Some x \<Longrightarrow> m \<le> n \<Longrightarrow> Union_fuel n opts h c as = Some x"
proof (induction n)
  case 0
  then show ?case by simp
next
  case (Suc n)
  show ?case
  proof (cases "m = Suc n")
    case True
    with Suc.prems show ?thesis by simp
  next
    case False
    with Suc have "Union_fuel n opts h c as = Some x" by simp
    with Union_fuel_Suc_le [of n] show ?thesis unfolding rec_le_def by blast
  qed
qed

lemma Union_fuel_le: "m \<le> n \<Longrightarrow> rec_le (Union_fuel m) (Union_fuel n)"
  unfolding rec_le_def using Union_fuel_mono by blast

lemma Union_fuel_deterministic:
  assumes "Union_fuel m opts h c as = Some x" "Union_fuel n opts h c as = Some y"
  shows "x = y"
proof (cases "m \<le> n")
  case True
  from Union_fuel_mono [OF assms(1) True] assms(2) show ?thesis by simp
next
  case False
  then have "n \<le> m" by simp
  from Union_fuel_mono [OF assms(2) this] assms(1) show ?thesis by simp
qed

subsection \<open>Graded heaps stay graded\<close>

text \<open>
  On a graded heap a call touches its control node, its overlays but the last, and nodes
  below them, and the heap stays graded.
\<close>

lemma gradedD: "graded lvl D h \<Longrightarrow> c \<in> set (Children (h a)) \<Longrightarrow> lvl c = Suc (lvl a) \<and> lvl a < D"
  unfolding graded_def by blast

lemma graded_add_new_children:
  assumes "graded lvl D h" and "\<forall>c \<in> set cs. lvl c = Suc (lvl u) \<and> lvl u < D"
  shows "graded lvl D (add_new_children h u ks cs)"
  unfolding graded_def
proof (intro allI ballI)
  fix a c assume c: "c \<in> set (Children (add_new_children h u ks cs a))"
  show "lvl c = Suc (lvl a) \<and> lvl a < D"
  proof (cases "c \<in> set (Children (h a))")
    case True
    with assms(1) show ?thesis by (rule gradedD)
  next
    case False
    with c have "a = u" "c \<in> set cs"
      by (auto simp: Children_add_new_children split: if_splits)
    with assms(2) show ?thesis by simp
  qed
qed

lemma rec_frameD:
  assumes "rec_frame lvl D rec" "rec opts h c as = Some (r, h')" "graded lvl D h"
    "\<forall>n \<in> set as. lvl n = lvl c"
  shows "graded lvl D h'" and "\<And>a. lvl a \<le> lvl c \<Longrightarrow> a \<noteq> c \<Longrightarrow> a \<notin> set (butlast as) \<Longrightarrow> h' a = h a"
  using assms unfolding rec_frame_def by blast+

lemma matching_level:
  assumes "graded lvl D h" "\<forall>n \<in> set add. lvl n = l" "m \<in> set (matchingChildrenFromAdd h add k)"
  shows "lvl m = Suc l"
  using assms by (auto simp: matchingChildrenFromAdd_def dest: gradedD)

lemma merge_children_frame:
  assumes rf: "rec_frame lvl D rec" and add: "\<forall>n \<in> set add. lvl n = l"
  shows "graded lvl D h \<Longrightarrow> \<forall>c \<in> set cs. lvl c = Suc l \<Longrightarrow>
         merge_children (rec opts) h add ks cs = Some (r, h') \<Longrightarrow>
         graded lvl D h' \<and> (\<forall>a. lvl a \<le> l \<longrightarrow> h' a = h a)"
proof (induction cs arbitrary: h ks)
  case Nil
  then show ?case by simp
next
  case (Cons c cs)
  let ?m = "matchingChildrenFromAdd h add (Key (h c))"
  from Cons.prems(3) obtain r0 h0 where r0: "rec opts h c ?m = Some (r0, h0)"
    by (cases "rec opts h c ?m") auto
  have lc: "lvl c = Suc l" using Cons.prems(2) by simp
  have lm: "\<forall>n \<in> set ?m. lvl n = lvl c"
    using matching_level [OF Cons.prems(1) add] lc by simp
  note fr = rec_frameD [OF rf r0 Cons.prems(1) lm]
  have same: "\<forall>a. lvl a \<le> l \<longrightarrow> h0 a = h a"
  proof (intro allI impI)
    fix a assume a: "lvl a \<le> l"
    then have "a \<noteq> c" using lc by auto
    moreover have "a \<notin> set (butlast ?m)" using a lm lc by (auto dest: in_set_butlastD)
    ultimately show "h0 a = h a" using a lc by (intro fr(2)) simp_all
  qed
  show ?case
  proof (cases r0)
    case (Inl e)
    with Cons.prems(3) r0 have "h' = h0" by simp
    with fr(1) same show ?thesis by simp
  next
    case (Inr m)
    with Cons.prems(3) r0 have "merge_children (rec opts) h0 add (ks @ [Key (h c)]) cs = Some (r, h')"
      by simp
    from Cons.IH [OF fr(1) _ this] Cons.prems(2) same show ?thesis by simp
  qed
qed

lemma Union_body_frame:
  assumes rs: "rec_sound rec" and rf: "rec_frame lvl D rec"
  shows "rec_frame lvl D (Union_body rec)"
  unfolding rec_frame_def
proof (intro allI impI, elim conjE)
  fix opts h control add r h'
  assume U: "Union_body rec opts h control add = Some (r, h')"
    and g: "graded lvl D h" and la: "\<forall>n \<in> set add. lvl n = lvl control"
  let ?goal = "graded lvl D h' \<and>
        (\<forall>a. lvl a \<le> lvl control \<and> a \<noteq> control \<and> a \<notin> set (butlast add) \<longrightarrow> h' a = h a)"
  from rs U show ?goal
  proof (cases rule: Union_body_cases)
    case empty
    with g show ?thesis by simp
  next
    case (mismatch n)
    with g show ?thesis by simp
  next
    case (merged add0 rest h1 h2)
    let ?cs = "Children (h control)"
    have lcs: "\<forall>c \<in> set ?cs. lvl c = Suc (lvl control)" using g by (auto dest: gradedD)
    from merge_children_frame [OF rf la g lcs merged(3)]
    have g1: "graded lvl D h1" and s1: "\<And>a. lvl a \<le> lvl control \<Longrightarrow> h1 a = h a" by simp_all
    have "graded lvl D h2 \<and> (\<forall>a. lvl a \<le> lvl control \<and> a \<notin> set (butlast add) \<longrightarrow> h2 a = h1 a)"
    proof (cases "rest = []")
      case True
      with merged(5) g1 show ?thesis by simp
    next
      case False
      have lr: "\<forall>n \<in> set rest. lvl n = lvl add0" using la merged(1) by simp
      note fr = rec_frameD [OF rf merged(4) [OF False] g1 lr]
      have "butlast add = add0 # butlast rest" using merged(1) False by simp
      moreover have "lvl add0 = lvl control" using la merged(1) by simp
      ultimately show ?thesis using fr by auto
    qed
    then have g2: "graded lvl D h2"
      and s2: "\<And>a. lvl a \<le> lvl control \<Longrightarrow> a \<notin> set (butlast add) \<Longrightarrow> h2 a = h1 a" by simp_all
    have "lvl add0 = lvl control" using la merged(1) by simp
    then have "\<forall>c \<in> set (Children (h2 add0)). lvl c = Suc (lvl control) \<and> lvl control < D"
      using g2 by (auto dest: gradedD)
    from graded_add_new_children [OF g2 this] have "graded lvl D h'"
      unfolding merged(7) .
    moreover have "\<forall>a. lvl a \<le> lvl control \<and> a \<noteq> control \<and> a \<notin> set (butlast add) \<longrightarrow> h' a = h a"
      unfolding merged(7) using s1 s2 by (simp add: add_new_children_other)
    ultimately show ?thesis by simp
  qed
qed

lemma Union_fuel_frame: "rec_frame lvl D (Union_fuel n)"
proof (induction n)
  case 0
  have "rec_frame lvl D (\<lambda>opts h control add. None)" by (simp add: rec_frame_def)
  moreover have "rec_sound (\<lambda>opts h control add. None)" by (simp add: rec_sound_def)
  ultimately show ?case by (simp add: Union_body_frame)
next
  case (Suc n)
  then show ?case by (simp add: Union_body_frame Union_fuel_sound)
qed

subsection \<open>On a graded heap Union returns\<close>

text \<open>
  By induction on the levels left below the control node, and on the number of overlays
  for the call that merges the overlays among themselves.
\<close>

lemma merge_children_terminates:
  assumes IH: "\<And>h c as. graded lvl D h \<Longrightarrow> lvl c = Suc l \<Longrightarrow> \<forall>n \<in> set as. lvl n = Suc l \<Longrightarrow>
                 \<forall>n \<in> set as. Key (h n) = Key (h c) \<Longrightarrow>
                 \<exists>m h'. Union_fuel m opts h c as = Some (Inr c, h')"
    and add: "\<forall>n \<in> set add. lvl n = l"
  shows "graded lvl D h \<Longrightarrow> \<forall>c \<in> set cs. lvl c = Suc l \<Longrightarrow>
         \<exists>m r h1. merge_children (Union_fuel m opts) h add ks cs = Some (r, h1)"
proof (induction cs arbitrary: h ks)
  case Nil
  then show ?case by simp
next
  case (Cons c cs)
  let ?m = "matchingChildrenFromAdd h add (Key (h c))"
  have lc: "lvl c = Suc l" using Cons.prems(2) by simp
  have lm: "\<forall>n \<in> set ?m. lvl n = Suc l"
    using matching_level [OF Cons.prems(1) add] by simp
  have km: "\<forall>n \<in> set ?m. Key (h n) = Key (h c)" by (simp add: matching_Key)
  from IH [OF Cons.prems(1) lc lm km] obtain m1 h0 where
    u: "Union_fuel m1 opts h c ?m = Some (Inr c, h0)" by blast
  have g0: "graded lvl D h0"
    using rec_frameD(1) [OF Union_fuel_frame u Cons.prems(1)] lm lc by simp
  from Cons.IH [OF g0, of "ks @ [Key (h c)]"] Cons.prems(2) obtain m2 r h1 where
    mc: "merge_children (Union_fuel m2 opts) h0 add (ks @ [Key (h c)]) cs = Some (r, h1)"
    by auto
  let ?M = "max m1 m2"
  have "Union_fuel ?M opts h c ?m = Some (Inr c, h0)"
    using u by (rule Union_fuel_mono) simp
  moreover have "merge_children (Union_fuel ?M opts) h0 add (ks @ [Key (h c)]) cs = Some (r, h1)"
    using mc by (intro merge_children_mono [OF Union_fuel_le [of m2 ?M]]) simp_all
  ultimately have "merge_children (Union_fuel ?M opts) h add ks (c # cs) = Some (r, h1)"
    by simp
  then show ?case by blast
qed

lemma Union_terminates_aux:
  "D - lvl control = k \<Longrightarrow> length add = len \<Longrightarrow> graded lvl D h \<Longrightarrow>
   \<forall>n \<in> set add. lvl n = lvl control \<Longrightarrow> \<forall>n \<in> set add. Key (h n) = Key (h control) \<Longrightarrow>
   \<exists>m h'. Union_fuel m opts h control add = Some (Inr control, h')"
proof (induction k arbitrary: control add len h rule: less_induct)
  case (less k)
  note outer = less.IH
  from less.prems show ?case
  proof (induction len arbitrary: control add h rule: less_induct)
    case (less len)
    note k = less.prems(1) and g = less.prems(3) and la = less.prems(4) and ka = less.prems(5)
    show ?case
    proof (cases add)
      case Nil
      then show ?thesis using Union_fuel_Nil by blast
    next
      case (Cons add0 rest)
      let ?cs = "Children (h control)"
      let ?l = "lvl control"
      have lcs: "\<forall>c \<in> set ?cs. lvl c = Suc ?l" using g by (auto dest: gradedD)
      have "\<exists>m r h1. merge_children (Union_fuel m opts) h add [] ?cs = Some (r, h1)"
      proof (cases "?cs = []")
        case True
        then show ?thesis by simp
      next
        case False
        then obtain c where "c \<in> set ?cs" by (cases ?cs) auto
        with g have "?l < D" by (auto dest: gradedD)
        then have small: "D - Suc ?l < k" using k by simp
        have "\<And>h c as. graded lvl D h \<Longrightarrow> lvl c = Suc ?l \<Longrightarrow> \<forall>n \<in> set as. lvl n = Suc ?l \<Longrightarrow>
                 \<forall>n \<in> set as. Key (h n) = Key (h c) \<Longrightarrow>
                 \<exists>m h'. Union_fuel m opts h c as = Some (Inr c, h')"
          using outer [OF small, OF _ refl] by simp
        from merge_children_terminates [OF this la g lcs] show ?thesis .
      qed
      then obtain m1 r1 h1 where
        mc: "merge_children (Union_fuel m1 opts) h add [] ?cs = Some (r1, h1)" by blast
      from merge_children_sound [OF Union_fuel_sound mc]
      have e1: "heap_ext h h1" and r1: "r1 = Inr (keys_of h ?cs)" by simp_all
      from merge_children_frame [OF Union_fuel_frame la g lcs mc]
      have g1: "graded lvl D h1" by simp
      have "\<exists>m2 h2. if rest \<noteq> [] then Union_fuel m2 opts h1 add0 rest = Some (Inr add0, h2)
                     else h2 = h1"
      proof (cases "rest = []")
        case True
        then show ?thesis by simp
      next
        case False
        have "length rest < len" using less.prems(2) Cons by simp
        moreover have "D - lvl add0 = k" using k la Cons by simp
        moreover have "\<forall>n \<in> set rest. lvl n = lvl add0" using la Cons by simp
        moreover have "\<forall>n \<in> set rest. Key (h1 n) = Key (h1 add0)"
          using ka Cons by (simp add: heap_ext_Key [OF e1])
        ultimately have "\<exists>m h'. Union_fuel m opts h1 add0 rest = Some (Inr add0, h')"
          using g1 by (intro less.IH [of "length rest"]) simp_all
        with False show ?thesis by auto
      qed
      then obtain m2 h2 where
        s2: "if rest \<noteq> [] then Union_fuel m2 opts h1 add0 rest = Some (Inr add0, h2) else h2 = h1"
        by blast
      let ?M = "max m1 m2"
      have mc': "merge_children (Union_fuel ?M opts) h (add0 # rest) [] ?cs = Some (Inr (keys_of h ?cs), h1)"
        using mc r1 Cons by (intro merge_children_mono [OF Union_fuel_le [of m1 ?M]]) simp_all
      have s2': "(if rest \<noteq> [] then Union_fuel ?M opts h1 add0 rest else Some (Inr add0, h1)) = Some (Inr add0, h2)"
      proof (cases "rest = []")
        case True
        with s2 show ?thesis by simp
      next
        case False
        with s2 have "Union_fuel m2 opts h1 add0 rest = Some (Inr add0, h2)" by simp
        then have "Union_fuel ?M opts h1 add0 rest = Some (Inr add0, h2)"
          by (rule Union_fuel_mono) simp
        with False show ?thesis by simp
      qed
      have "Union_fuel (Suc ?M) opts h control (add0 # rest) =
              Some (Inr control, add_new_children h2 control (keys_of h ?cs) (Children (h2 add0)))"
        using ka [unfolded Cons] by (simp add: Union_body_match mc' s2')
      then show ?thesis unfolding Cons by blast
    qed
  qed
qed

lemma Union_terminates:
  assumes "graded lvl D h" "\<forall>n \<in> set add. lvl n = lvl control"
    "\<forall>n \<in> set add. Key (h n) = Key (h control)"
  shows "\<exists>m h'. Union_fuel m opts h control add = Some (Inr control, h')"
  using Union_terminates_aux [OF refl refl assms] .

lemma Union_total:
  assumes "graded lvl D h" "\<forall>n \<in> set add. lvl n = lvl control"
    "\<forall>n \<in> set add. Key (h n) = Key (h control)"
  shows "\<exists>m h'. Union_fuel m opts h control add = Some (Inr control, h') \<and> heap_ext h h' \<and>
           (\<forall>n res. Union_fuel n opts h control add = Some res \<longrightarrow> res = (Inr control, h'))"
proof -
  from Union_terminates [OF assms] obtain m h' where
    u: "Union_fuel m opts h control add = Some (Inr control, h')" by blast
  have "heap_ext h h'" using Union_fuel_sound [of m] u unfolding rec_sound_def by blast
  moreover have "\<forall>n res. Union_fuel n opts h control add = Some res \<longrightarrow> res = (Inr control, h')"
    using Union_fuel_deterministic [OF _ u] by blast
  ultimately show ?thesis using u by (intro exI [of _ m] exI [of _ h'] conjI)
qed

lemma Union_keeps_same_key_child:
  assumes "graded lvl D h" and "\<forall>n \<in> set add. lvl n = lvl control"
    and "\<forall>n \<in> set add. Key (h n) = Key (h control)"
    and x: "x \<in> set (Children (h dir))" and y: "Key (h y) = Key (h x)"
  shows "\<exists>m h'. Union_fuel m opts h control add = Some (Inr control, h') \<and>
           (\<forall>n res. Union_fuel n opts h control add = Some res \<longrightarrow> res = (Inr control, h')) \<and>
           heap_ext h h' \<and>
           x \<in> set (Children (h' dir)) \<and>
           (\<forall>c \<in> set (Children (h' dir)). Key (h' c) = Key (h x) \<longrightarrow> c \<in> set (Children (h dir))) \<and>
           (y \<notin> set (Children (h dir)) \<longrightarrow> y \<notin> set (Children (h' dir)))"
proof -
  from Union_total [OF assms(1-3)] obtain m h' where
    u: "Union_fuel m opts h control add = Some (Inr control, h')" and e: "heap_ext h h'"
    and d: "\<forall>n res. Union_fuel n opts h control add = Some res \<longrightarrow> res = (Inr control, h')"
    by blast
  have ky: "Key (h' y) = Key (h x)" using y by (simp only: heap_ext_Key [OF e])
  have 1: "x \<in> set (Children (h' dir))" using e x by (rule heap_ext_same_key(1))
  have 3: "\<forall>c \<in> set (Children (h' dir)). Key (h' c) = Key (h x) \<longrightarrow> c \<in> set (Children (h dir))"
  proof (intro ballI impI)
    fix c assume "c \<in> set (Children (h' dir))" "Key (h' c) = Key (h x)"
    then show "c \<in> set (Children (h dir))"
      using heap_ext_same_key(2) [OF e x, of c] by simp
  qed
  have 4: "y \<notin> set (Children (h dir)) \<longrightarrow> y \<notin> set (Children (h' dir))"
    using 3 ky by auto
  show ?thesis by (intro exI [of _ m] exI [of _ h'] conjI; fact)
qed

subsection \<open>The children of the arguments after the call\<close>

text \<open>
  On a graded heap with distinct arguments, each argument ends with the children of the
  combined view of itself and the arguments after it.
\<close>

lemma overlay_children_cong:
  assumes "\<forall>x \<in> set xs. h1 x = h x" and "\<And>c. Key (h1 c) = Key (h c)"
  shows "overlay_children h1 xs = overlay_children h xs"
  using assms(1) by (induction xs) (simp_all add: keys_of_def assms(2))

lemma rec_exactD:
  assumes "rec_exact lvl D rec" "rec opts h c as = Some (Inr r, h')" "graded lvl D h"
    "\<forall>n \<in> set as. lvl n = lvl c" "distinct (c # as)" "i < length (c # as)"
  shows "Children (h' ((c # as) ! i)) = overlay_children h (drop i (c # as))"
  using assms unfolding rec_exact_def by blast

lemma Union_body_exact:
  assumes rs: "rec_sound rec" and rf: "rec_frame lvl D rec" and re: "rec_exact lvl D rec"
  shows "rec_exact lvl D (Union_body rec)"
  unfolding rec_exact_def
proof (intro allI impI, elim conjE)
  fix opts h control add r h' i
  assume U: "Union_body rec opts h control add = Some (Inr r, h')"
    and g: "graded lvl D h" and la: "\<forall>n \<in> set add. lvl n = lvl control"
    and d: "distinct (control # add)" and i: "i < length (control # add)"
  let ?goal = "Children (h' ((control # add) ! i)) = overlay_children h (drop i (control # add))"
  from rs U show ?goal
  proof (cases rule: Union_body_cases)
    case empty
    with i show ?thesis by simp
  next
    case (mismatch n)
    then show ?thesis by simp
  next
    case (merged add0 rest h1 h2)
    let ?cs = "Children (h control)"
    let ?ks = "keys_of h ?cs"
    have lcs: "\<forall>c \<in> set ?cs. lvl c = Suc (lvl control)" using g by (auto dest: gradedD)
    from merge_children_frame [OF rf la g lcs merged(3)]
    have g1: "graded lvl D h1" and s1: "\<And>a. lvl a \<le> lvl control \<Longrightarrow> h1 a = h a" by simp_all
    from merge_children_sound [OF rs merged(3)] have e1: "heap_ext h h1" by simp
    have l0: "lvl add0 = lvl control" using la merged(1) by simp
    have oc1: "\<And>xs. set xs \<subseteq> set (control # add) \<Longrightarrow> overlay_children h1 xs = overlay_children h xs"
      using la s1 by (intro overlay_children_cong heap_ext_Key [OF e1]) auto
    have step2: "(\<forall>j < length add. Children (h2 (add ! j)) = overlay_children h (drop j add)) \<and>
                 h2 control = h control \<and> heap_ext h1 h2"
    proof (cases "rest = []")
      case True
      with merged(5) have "h2 = h1" by simp
      with True merged(1) s1 l0 show ?thesis by (simp add: heap_ext_refl)
    next
      case False
      note rr = merged(4) [OF False]
      have lr: "\<forall>n \<in> set rest. lvl n = lvl add0" using la merged(1) by simp
      have dr: "distinct (add0 # rest)" using d merged(1) by simp
      have "\<forall>j < length add. Children (h2 (add ! j)) = overlay_children h (drop j add)"
      proof (intro allI impI)
        fix j assume j: "j < length add"
        then have "Children (h2 ((add0 # rest) ! j)) = overlay_children h1 (drop j (add0 # rest))"
          using merged(1) by (intro rec_exactD [OF re rr g1 lr dr]) simp
        moreover have "set (drop j add) \<subseteq> set (control # add)"
          by (auto dest: in_set_dropD)
        ultimately show "Children (h2 (add ! j)) = overlay_children h (drop j add)"
          using oc1 merged(1) by simp
      qed
      moreover have "h2 control = h1 control"
        using d merged(1) l0 by (intro rec_frameD(2) [OF rf rr g1 lr]) (auto dest: in_set_butlastD)
      moreover have "heap_ext h1 h2" using rs rr unfolding rec_sound_def by blast
      ultimately show ?thesis using s1 by simp
    qed
    then have ex2: "\<And>j. j < length add \<Longrightarrow> Children (h2 (add ! j)) = overlay_children h (drop j add)"
      and c2: "h2 control = h control" and e2: "heap_ext h1 h2" by simp_all
    have k2: "\<And>c. Key (h2 c) = Key (h c)"
      using heap_ext_Key [OF heap_ext_trans [OF e1 e2]] .
    have a0: "Children (h2 add0) = overlay_children h add"
      using ex2 [of 0] merged(1) by simp
    show ?thesis
    proof (cases i)
      case 0
      then show ?thesis
        unfolding merged(7)
        by (simp add: Children_add_new_children c2 k2 a0 not_is_dir_Children)
    next
      case (Suc j)
      with i have j: "j < length add" by simp
      then have "add ! j \<noteq> control" using d by auto
      with Suc ex2 [OF j] show ?thesis
        unfolding merged(7) by (simp add: add_new_children_other)
    qed
  qed
qed

lemma Union_fuel_exact: "rec_exact lvl D (Union_fuel n)"
proof (induction n)
  case 0
  have "rec_exact lvl D (\<lambda>opts h control add. None)" by (simp add: rec_exact_def)
  moreover have "rec_frame lvl D (\<lambda>opts h control add. None)" by (simp add: rec_frame_def)
  moreover have "rec_sound (\<lambda>opts h control add. None)" by (simp add: rec_sound_def)
  ultimately show ?case by (simp add: Union_body_exact)
next
  case (Suc n)
  then show ?case by (simp add: Union_body_exact Union_fuel_sound Union_fuel_frame)
qed

lemma Union_children_exact:
  assumes "Union_fuel n opts h control add = Some (Inr r, h')"
    and "graded lvl D h" and "\<forall>a \<in> set add. lvl a = lvl control" and "distinct (control # add)"
    and "i < length (control # add)"
  shows "Children (h' ((control # add) ! i)) = overlay_children h (drop i (control # add))"
  using Union_fuel_exact [of lvl D n] assms unfolding rec_exact_def by blast

lemma subseq_overlay_children:
  "subseq (overlay_children h as) (concat (map (\<lambda>a. Children (h a)) as))"
proof (induction as)
  case Nil
  then show ?case by simp
next
  case (Cons a as)
  have "subseq (filter (\<lambda>c. Key (h c) \<notin> set (keys_of h (Children (h a)))) (overlay_children h as))
          (concat (map (\<lambda>a. Children (h a)) as))"
    using subseq_filter_left Cons.IH by (rule subseq_order.trans)
  then show ?case
    by (auto intro!: list_emb_append_mono simp: subseq_rev_drop_many)
qed

subsection \<open>Key paths of the overlays reach the control node\<close>



lemma heap_ext_grows: "heap_ext h h' \<Longrightarrow> heap_grows h h'"
  unfolding heap_grows_def
  using heap_ext_Children [of h h'] heap_ext_Key [of h h'] heap_ext_Type [of h h']
  by (metis is_dir_def prefixI)


















subsection \<open>The example heaps\<close>

text \<open>
  The example heaps are graded, and \<open>Union\<close> on them is evaluated by the simplifier.
\<close>

lemma gradedI_finite:
  assumes "\<And>a. a \<notin> set as \<Longrightarrow> Children (h a) = []"
    and "list_all (\<lambda>a. list_all (\<lambda>c. lvl c = Suc (lvl a) \<and> lvl a < D) (Children (h a))) as"
  shows "graded lvl D h"
  unfolding graded_def
proof (intro allI ballI)
  fix a c assume c: "c \<in> set (Children (h a))"
  have "a \<in> set as"
  proof (rule ccontr)
    assume "a \<notin> set as"
    from assms(1) [OF this] c show False by simp
  qed
  with assms(2) c show "lvl c = Suc (lvl a) \<and> lvl a < D" by (auto simp: list_all_iff)
qed

lemma graded_two_graphs:
  "graded (tree_level [0, 4] [1, 3, 5, 7, 9]) 2 (two_graphs root dir1 f1 f_root f2 dir2 f3 f_add)"
proof (rule gradedI_finite [where as = "[0, 1, 2, 3, 4, 5, 6, 7, 8, 9]"])
  fix a :: addr assume "a \<notin> set [0, 1, 2, 3, 4, 5, 6, 7, 8, 9]"
  then show "Children (two_graphs root dir1 f1 f_root f2 dir2 f3 f_add a) = []"
    by (simp add: two_graphs_def no_nodes_def NewFileNode_def NewDirectoryNode_def Let_def)
next
  show "list_all (\<lambda>a. list_all (\<lambda>c. tree_level [0, 4] [1, 3, 5, 7, 9] c = Suc (tree_level [0, 4] [1, 3, 5, 7, 9] a) \<and> tree_level [0, 4] [1, 3, 5, 7, 9] a < 2)
      (Children (two_graphs root dir1 f1 f_root f2 dir2 f3 f_add a))) [0, 1, 2, 3, 4, 5, 6, 7, 8, 9]"
    by code_simp
qed



lemma graded_collision_heap: "graded (tree_level [0, 2] [1, 3]) 2 collision_heap"
  by (simp add: graded_def tree_level_def collision_heap_def no_nodes_def NewFileNode_def
      NewDirectoryNode_def Let_def)

lemma graded_mismatch_heap: "graded (tree_level [0, 2] [1, 3]) 2 mismatch_heap"
  by (simp add: graded_def tree_level_def mismatch_heap_def no_nodes_def NewFileNode_def
      NewDirectoryNode_def Let_def)

lemma mismatch_heap_nodes:
  "mismatch_heap 0 = DirectoryNode ''root'' [\<lparr>Target = 1, LinkType = RegularLink, Name = ''y''\<rparr>] None"
  "mismatch_heap 1 = FileNode ''y'' FILEACTION_COPY [] [] None"
  "mismatch_heap (Suc 0) = FileNode ''y'' FILEACTION_COPY [] [] None"
  "mismatch_heap 2 = DirectoryNode ''root'' [\<lparr>Target = 3, LinkType = RegularLink, Name = ''y''\<rparr>] None"
  "mismatch_heap 3 = DirectoryNode ''y'' [\<lparr>Target = 4, LinkType = RegularLink, Name = ''z''\<rparr>] None"
  by (simp_all add: mismatch_heap_def no_nodes_def NewFileNode_def NewDirectoryNode_def Let_def
      Key_def HasSuffix_def)

lemma collision_heap_nodes:
  "collision_heap 0 = DirectoryNode ''root'' [\<lparr>Target = 1, LinkType = RegularLink, Name = ''x''\<rparr>] None"
  "collision_heap 1 = FileNode ''x'' FILEACTION_COPY [0x01] [] None"
  "collision_heap (Suc 0) = FileNode ''x'' FILEACTION_COPY [0x01] [] None"
  "collision_heap 2 = DirectoryNode ''root'' [\<lparr>Target = 3, LinkType = RegularLink, Name = ''x''\<rparr>] None"
  "collision_heap 3 = FileNode ''x'' FILEACTION_COPY [0x02] [] None"
  by (simp_all add: collision_heap_def no_nodes_def NewDirectoryNode_def Let_def Key_def)

lemma two_graphs_paths:
  assumes "distinct [dir1, f_root, dir2, f_add]" "f1 \<noteq> f2"
  shows "\<exists>h'. Union_fuel 2 opts (two_graphs root dir1 f1 f_root f2 dir2 f3 f_add) 0 [4] = Some (Inr 0, h') \<and>
     Children (h' 0) = [1, 3, 7, 9] \<and> Children (h' 1) = [2, 6] \<and>
     keys_of h' (Children (h' 0)) = [dir1, f_root, dir2, f_add] \<and>
     keys_of h' (Children (h' 1)) = [f1, f2] \<and>
     paths 2 h' 0 =
       [[root], [root, dir1], [root, dir1, f1], [root, dir1, f2], [root, f_root],
        [root, dir2], [root, dir2, f3], [root, f_add]] \<and>
     nodes 2 h' 0 = [0, 1, 2, 6, 3, 7, 8, 9]"
proof -
  have ne: "f_root \<noteq> dir1" "dir2 \<noteq> dir1" "f_add \<noteq> dir1" "dir2 \<noteq> f_root" "f_add \<noteq> f_root"
    "f_add \<noteq> dir2" "f2 \<noteq> f1"
    using assms by auto
  show ?thesis using assms ne
    by (simp add: numeral_2_eq_2 Union_body_def two_graphs_def no_nodes_def NewFileNode_def
      NewDirectoryNode_def matchingChildrenFromAdd_def Key_def keys_of_def Let_def)
qed

lemma two_graphs_input_paths:
  "paths 2 (two_graphs root dir1 f1 f_root f2 dir2 f3 f_add) 0 =
     [[root], [root, dir1], [root, dir1, f1], [root, f_root]]"
  "paths 2 (two_graphs root dir1 f1 f_root f2 dir2 f3 f_add) 4 =
     [[root], [root, dir1], [root, dir1, f2], [root, dir2], [root, dir2, f3], [root, f_add]]"
  by (simp_all add: numeral_2_eq_2 two_graphs_def no_nodes_def NewFileNode_def
      NewDirectoryNode_def Key_def Let_def)

lemma two_graphs_children:
  "Children (two_graphs root dir1 f1 f_root f2 dir2 f3 f_add 0) = [1, 3]"
  "Children (two_graphs root dir1 f1 f_root f2 dir2 f3 f_add 4) = [5, 7, 9]"
  by (simp_all add: two_graphs_def no_nodes_def NewFileNode_def NewDirectoryNode_def Let_def)




section \<open>The claims\<close>

subsection \<open>Root keys and the empty overlay list\<close>

text \<open>
  C3: when some overlay's root key differs from the control's root key, \<open>Union\<close> returns
  the error that names the first such overlay key and the control key, at any recursion
  depth and for any options, and the heap it returns is the heap it was given: nothing
  was merged before the check.
\<close>

theorem Union_mismatched_roots:
  assumes "n \<in> set add" and "Key (h n) \<noteq> Key (h control)"
  shows "\<exists>k \<in> set add. Key (h k) \<noteq> Key (h control) \<and>
           Union_fuel fuel opts h control add =
             Some (Inl (MismatchedRoots (Key (h k)) (Key (h control))), h) \<and>
           message (MismatchedRoots (Key (h k)) (Key (h control))) =
             ''mismatched roots: '' @ Key (h k) @ '' does not match '' @ Key (h control)"
proof -
  from assms have "find (\<lambda>n. Key (h n) \<noteq> Key (h control)) add \<noteq> None"
    by (auto simp: find_None_iff)
  then obtain k where f: "find (\<lambda>n. Key (h n) \<noteq> Key (h control)) add = Some k" by auto
  then have "k \<in> set add" "Key (h k) \<noteq> Key (h control)"
    by (auto simp: find_Some_iff)
  with Union_fuel_mismatch [OF f] show ?thesis by auto
qed

theorem Union_mismatched_roots_witness:
  "Union_fuel 0 \<lparr>DefaultCollisionAction = ErrorOnCollision\<rparr> two_roots 0 [1] =
     Some (Inl (MismatchedRoots ''b'' ''a''), two_roots)"
  using Union_mismatched_roots [of 1 "[1]" two_roots 0 0 "\<lparr>DefaultCollisionAction = ErrorOnCollision\<rparr>"]
  by (simp add: two_roots_def no_nodes_def NewDirectoryNode_def NewFileNode_def Key_def)

text \<open>
  C4: with zero overlay trees \<open>Union\<close> returns the control node itself and no error, and
  the heap (so the node, its children and their order) is unchanged, whatever the merge
  options and the recursion depth.
\<close>

theorem Union_no_overlays:
  "Union_fuel n opts h T [] = Some (Inr T, h)"
  by (cases n) (simp_all add: Union_body_def)

subsection \<open>File content\<close>

text \<open>
  C8: \<open>SetContent\<close> with the empty byte sequence returns no error and leaves the file node
  as it was, so the fingerprint and the content type of a new file node stay unset. With
  a non-empty byte sequence the fingerprint becomes the digest of the bytes (not empty,
  since an MD5 digest has 16 bytes), and the content type becomes the MIME value of the
  recognised kind, or stays when the kind is unknown.
\<close>

theorem SetContent_empty_is_noop:
  "SetContent match md5sum (FileNode n ac d c p) [] = (None, FileNode n ac d c p) \<and>
   datahash (snd (SetContent match md5sum (NewFileNode n) [])) = [] \<and>
   content_type (snd (SetContent match md5sum (NewFileNode n) [])) = [] \<and>
   (src \<noteq> [] \<longrightarrow>
      SetContent match md5sum (FileNode n ac d c p) src =
        (None, FileNode n ac (md5sum src) (case match src of None \<Rightarrow> c | Some mime \<Rightarrow> mime) p) \<and>
      (length (md5sum src) = 16 \<longrightarrow>
         datahash (snd (SetContent match md5sum (FileNode n ac d c p) src)) \<noteq> []))"
  by (auto simp: NewFileNode_def)

theorem SetContent_empty_is_noop_witness:
  "SetContent (\<lambda>src. if take 2 src = [0x1F, 0x8B] then Some ''application/gzip'' else None)
     (\<lambda>src. replicate 16 (hd src)) (NewFileNode ''a.gz'') [0x1F, 0x8B, 0x08] =
   (None, FileNode ''a.gz'' FILEACTION_COPY (replicate 16 0x1F) ''application/gzip'' None)"
  using SetContent_empty_is_noop [of "\<lambda>src. if take 2 src = [0x1F, 0x8B] then Some ''application/gzip'' else None"
      "\<lambda>src. replicate 16 (hd src)" "''a.gz''" FILEACTION_COPY "[]" "[]" None "[0x1F, 0x8B, 0x08]"]
  by (simp add: NewFileNode_def HasSuffix_def)

subsection \<open>Nodes that share a key\<close>

text \<open>
  C1: the claim asks \<open>Union\<close> to fail when \<open>DefaultCollisionAction\<close> is
  \<open>ErrorOnCollision\<close> and two files with the same key carry different fingerprints. On
  the control tree root/x with fingerprint 01 and the overlay tree root/x with
  fingerprint 02, \<open>Union\<close> returns the control root and no error, and changes nothing.
\<close>

theorem Union_ignores_ErrorOnCollision:
  "Union_fuel 1 \<lparr>DefaultCollisionAction = ErrorOnCollision\<rparr> collision_heap 0 [2] =
     Some (Inr 0, collision_heap)"
  by (simp add: Union_body_def collision_heap_def no_nodes_def NewFileNode_def
      NewDirectoryNode_def matchingChildrenFromAdd_def Key_def Let_def)

text \<open>
  C2, as stated: a file and a directory with the same key make \<open>Union\<close> fail. It does
  not: with the file \<open>y\<close> in the control tree and the directory \<open>y\<close> in the overlay,
  \<open>Union\<close> returns the control root and no error, and the heap is unchanged.
\<close>

theorem Union_type_mismatch_counterexample:
  "Union_fuel 1 \<lparr>DefaultCollisionAction = OverwriteOnCollision\<rparr> mismatch_heap 0 [2] =
     Some (Inr 0, mismatch_heap)"
  by (simp add: Union_body_def mismatch_heap_def no_nodes_def NewFileNode_def
      NewDirectoryNode_def matchingChildrenFromAdd_def Key_def Let_def)

text \<open>
  C2, amended: with \<open>DefaultCollisionAction = OverwriteOnCollision\<close>, on trees whose
  roots carry the control's key, \<open>Union\<close> returns the control node and no error (at some
  recursion depth, and with the same result at every depth at which it returns), also
  when a directory \<open>dir\<close> of the control tree has a child \<open>x\<close> and the overlay's
  directory \<open>odir\<close> in the same place has a child \<open>y\<close> with the same key and the other
  node type. Then \<open>x\<close> is still a child of \<open>dir\<close> and has the type it had, every child
  of \<open>dir\<close> with that key in the merged tree was a child of \<open>dir\<close> before, and \<open>y\<close>
  was not added to \<open>dir\<close>: the control's node replaces the overlay's.
\<close>

theorem Union_type_mismatch_keeps_control:
  assumes "DefaultCollisionAction opts = OverwriteOnCollision"
    and "graded lvl D h" and "\<forall>n \<in> set add. lvl n = lvl control"
    and "\<forall>n \<in> set add. Key (h n) = Key (h control)"
    and "x \<in> set (Children (h dir))" and "y \<in> set (Children (h odir))"
    and "Key (h y) = Key (h x)" and "Type (h y) \<noteq> Type (h x)"
  shows "\<exists>m h'. Union_fuel m opts h control add = Some (Inr control, h') \<and>
           (\<forall>n res. Union_fuel n opts h control add = Some res \<longrightarrow> res = (Inr control, h')) \<and>
           x \<in> set (Children (h' dir)) \<and> Type (h' x) = Type (h x) \<and>
           (\<forall>c \<in> set (Children (h' dir)). Key (h' c) = Key (h x) \<longrightarrow> c \<in> set (Children (h dir))) \<and>
           (y \<notin> set (Children (h dir)) \<longrightarrow> y \<notin> set (Children (h' dir)))"
proof -
  from Union_keeps_same_key_child [OF assms(2-5) assms(7), of opts] obtain m h' where
    1: "Union_fuel m opts h control add = Some (Inr control, h')"
    and 2: "\<forall>n res. Union_fuel n opts h control add = Some res \<longrightarrow> res = (Inr control, h')"
    and e: "heap_ext h h'"
    and 3: "x \<in> set (Children (h' dir))"
    and 4: "\<forall>c \<in> set (Children (h' dir)). Key (h' c) = Key (h x) \<longrightarrow> c \<in> set (Children (h dir))"
    and 5: "y \<notin> set (Children (h dir)) \<longrightarrow> y \<notin> set (Children (h' dir))"
    by blast
  have 6: "Type (h' x) = Type (h x)" using e by (rule heap_ext_Type)
  show ?thesis by (intro exI [of _ m] exI [of _ h'] conjI; fact)
qed

theorem Union_type_mismatch_keeps_control_witness:
  "\<exists>m h'. Union_fuel m \<lparr>DefaultCollisionAction = OverwriteOnCollision\<rparr> mismatch_heap 0 [2] =
             Some (Inr 0, h') \<and>
     1 \<in> set (Children (h' 0)) \<and> Type (h' 1) = NODETYPE_FILE \<and> 3 \<notin> set (Children (h' 0))"
proof -
  have o: "DefaultCollisionAction \<lparr>DefaultCollisionAction = OverwriteOnCollision\<rparr> =
      OverwriteOnCollision" by simp
  have "\<forall>n \<in> set [2]. tree_level [0, 2] [1, 3] n = tree_level [0, 2] [1, 3] 0"
    by (simp add: tree_level_def)
  moreover have "\<forall>n \<in> set [2]. Key (mismatch_heap n) = Key (mismatch_heap 0)"
    by (simp add: mismatch_heap_nodes Key_def)
  moreover have "1 \<in> set (Children (mismatch_heap 0))"
    "3 \<in> set (Children (mismatch_heap 2))" "Key (mismatch_heap 3) = Key (mismatch_heap 1)"
    "Type (mismatch_heap 3) \<noteq> Type (mismatch_heap 1)"
    by (simp_all add: mismatch_heap_nodes Key_def NODETYPE_DIRECTORY_def NODETYPE_FILE_def)
  ultimately obtain m h' where
    "Union_fuel m \<lparr>DefaultCollisionAction = OverwriteOnCollision\<rparr> mismatch_heap 0 [2] = Some (Inr 0, h')"
    "1 \<in> set (Children (h' 0))" "Type (h' 1) = Type (mismatch_heap 1)"
    "3 \<notin> set (Children (mismatch_heap 0)) \<longrightarrow> 3 \<notin> set (Children (h' 0))"
    using Union_type_mismatch_keeps_control [OF o graded_mismatch_heap, of "[2]" 0 1 0 3 2]
    by blast
  then show ?thesis
    by (intro exI [of _ m] exI [of _ h']) (simp add: mismatch_heap_nodes)
qed

text \<open>
  C5: with \<open>DefaultCollisionAction = OverwriteOnCollision\<close>, on trees whose roots carry
  the control's key, \<open>Union\<close> returns the control node and no error (at some recursion
  depth, with the same result at every depth at which it returns), and when a directory
  \<open>dir\<close> of the control tree has a file child \<open>x\<close> and the overlay's directory \<open>odir\<close> in
  the same place a file child \<open>y\<close> with the same key and another fingerprint, then in
  the merged tree \<open>x\<close> is still a child of \<open>dir\<close> and is the file it was, fingerprint
  included; every child of \<open>dir\<close> with that key was a child of \<open>dir\<close> before; and \<open>y\<close>
  was not added to \<open>dir\<close>.
\<close>

theorem Union_overwrite_keeps_control:
  assumes "DefaultCollisionAction opts = OverwriteOnCollision"
    and "graded lvl D h" and "\<forall>n \<in> set add. lvl n = lvl control"
    and "\<forall>n \<in> set add. Key (h n) = Key (h control)"
    and "x \<in> set (Children (h dir))" and "h x = FileNode k ax dx cx px"
    and "y \<in> set (Children (h odir))" and "h y = FileNode k ay dy cy py"
    and "dx \<noteq> dy"
  shows "\<exists>m h'. Union_fuel m opts h control add = Some (Inr control, h') \<and>
           (\<forall>n res. Union_fuel n opts h control add = Some res \<longrightarrow> res = (Inr control, h')) \<and>
           x \<in> set (Children (h' dir)) \<and> h' x = FileNode k ax dx cx px \<and>
           datahash (h' x) = dx \<and>
           (\<forall>c \<in> set (Children (h' dir)). Key (h' c) = k \<longrightarrow> c \<in> set (Children (h dir))) \<and>
           (y \<notin> set (Children (h dir)) \<longrightarrow> y \<notin> set (Children (h' dir)))"
proof -
  have kx: "Key (h x) = k" using assms(6) by (simp add: Key_def)
  have ky: "Key (h y) = Key (h x)" using assms(6,8) by (simp add: Key_def)
  from Union_keeps_same_key_child [OF assms(2-5) ky, of opts] obtain m h' where
    1: "Union_fuel m opts h control add = Some (Inr control, h')"
    and 2: "\<forall>n res. Union_fuel n opts h control add = Some res \<longrightarrow> res = (Inr control, h')"
    and e: "heap_ext h h'"
    and 3: "x \<in> set (Children (h' dir))"
    and 4: "\<forall>c \<in> set (Children (h' dir)). Key (h' c) = Key (h x) \<longrightarrow> c \<in> set (Children (h dir))"
    and 5: "y \<notin> set (Children (h dir)) \<longrightarrow> y \<notin> set (Children (h' dir))"
    by blast
  have 6: "h' x = FileNode k ax dx cx px" using e assms(6) by (rule heap_ext_File)
  then have 7: "datahash (h' x) = dx" by simp
  have 8: "\<forall>c \<in> set (Children (h' dir)). Key (h' c) = k \<longrightarrow> c \<in> set (Children (h dir))"
    using 4 unfolding kx .
  show ?thesis by (intro exI [of _ m] exI [of _ h'] conjI; fact)
qed

theorem Union_overwrite_keeps_control_witness:
  "\<exists>m h'. Union_fuel m \<lparr>DefaultCollisionAction = OverwriteOnCollision\<rparr> collision_heap 0 [2] =
             Some (Inr 0, h') \<and>
     1 \<in> set (Children (h' 0)) \<and> datahash (h' 1) = [0x01] \<and> 3 \<notin> set (Children (h' 0))"
proof -
  have "DefaultCollisionAction \<lparr>DefaultCollisionAction = OverwriteOnCollision\<rparr> = OverwriteOnCollision"
    by simp
  moreover note graded_collision_heap
  moreover have "\<forall>n \<in> set [2]. tree_level [0, 2] [1, 3] n = tree_level [0, 2] [1, 3] 0"
    by (simp add: tree_level_def)
  moreover have "\<forall>n \<in> set [2]. Key (collision_heap n) = Key (collision_heap 0)"
    by (simp add: collision_heap_nodes Key_def)
  moreover have "1 \<in> set (Children (collision_heap 0))"
    "collision_heap 1 = FileNode ''x'' FILEACTION_COPY [0x01] [] None"
    "3 \<in> set (Children (collision_heap 2))"
    "collision_heap 3 = FileNode ''x'' FILEACTION_COPY [0x02] [] None"
    "[0x01] \<noteq> [0x02 :: byte]"
    by (simp_all add: collision_heap_nodes)
  ultimately obtain m h' where
    "Union_fuel m \<lparr>DefaultCollisionAction = OverwriteOnCollision\<rparr> collision_heap 0 [2] = Some (Inr 0, h')"
    "1 \<in> set (Children (h' 0))" "datahash (h' 1) = [0x01]"
    "3 \<notin> set (Children (collision_heap 0)) \<longrightarrow> 3 \<notin> set (Children (h' 0))"
    using Union_overwrite_keeps_control [of "\<lparr>DefaultCollisionAction = OverwriteOnCollision\<rparr>"
        "tree_level [0, 2] [1, 3]" 2 collision_heap "[2]" 0 1 0 "''x''" FILEACTION_COPY "[0x01]" "[]" None
        3 2 FILEACTION_COPY "[0x02]" "[]" None]
    by blast
  then show ?thesis
    by (intro exI [of _ m] exI [of _ h']) (simp add: collision_heap_nodes)
qed

text \<open>
  C10: every node answers \<open>DefaultOnCollision\<close> when asked for its collision action,
  which by the comment on that value leaves the choice to the merge options. The claim
  concludes that \<open>DefaultCollisionAction\<close> alone governs what happens on a collision.
  It governs nothing: \<open>Union\<close> returns the same result for any two option values, at
  every recursion depth and on every heap. On the control tree root/x with fingerprint
  01 and the overlay tree root/x with fingerprint 02, two files that collide, the call
  with \<open>ErrorOnCollision\<close> returns what the call with \<open>OverwriteOnCollision\<close> returns:
  the control root, no error, and the heap as it was.
\<close>

theorem Union_not_governed_by_options:
  "CollisionAction nd = DefaultOnCollision \<and>
   Union_fuel n opts h control add = Union_fuel n opts' h control add \<and>
   Key (collision_heap 1) = Key (collision_heap 3) \<and>
   datahash (collision_heap 1) \<noteq> datahash (collision_heap 3) \<and>
   Union_fuel 1 \<lparr>DefaultCollisionAction = ErrorOnCollision\<rparr> collision_heap 0 [2] =
     Union_fuel 1 \<lparr>DefaultCollisionAction = OverwriteOnCollision\<rparr> collision_heap 0 [2] \<and>
   Union_fuel 1 \<lparr>DefaultCollisionAction = OverwriteOnCollision\<rparr> collision_heap 0 [2] =
     Some (Inr 0, collision_heap)"
proof (intro conjI)
  show "CollisionAction nd = DefaultOnCollision" by (cases nd) simp_all
  show "Union_fuel n opts h control add = Union_fuel n opts' h control add"
    by (simp only: Union_fuel_ignores_options [of n opts opts'])
  show "Key (collision_heap 1) = Key (collision_heap 3)"
    by (simp add: collision_heap_nodes Key_def)
  show "datahash (collision_heap 1) \<noteq> datahash (collision_heap 3)"
    by (simp add: collision_heap_nodes)
  show "Union_fuel 1 \<lparr>DefaultCollisionAction = ErrorOnCollision\<rparr> collision_heap 0 [2] =
     Union_fuel 1 \<lparr>DefaultCollisionAction = OverwriteOnCollision\<rparr> collision_heap 0 [2]"
    by (simp only: Union_fuel_ignores_options
        [of 1 "\<lparr>DefaultCollisionAction = ErrorOnCollision\<rparr>"
          "\<lparr>DefaultCollisionAction = OverwriteOnCollision\<rparr>"])
  show "Union_fuel 1 \<lparr>DefaultCollisionAction = OverwriteOnCollision\<rparr> collision_heap 0 [2] =
     Some (Inr 0, collision_heap)"
    by (simp add: Union_body_def collision_heap_def no_nodes_def NewFileNode_def
        NewDirectoryNode_def matchingChildrenFromAdd_def Key_def Let_def)
qed

subsection \<open>The merged tree\<close>

text \<open>
  C6: for the control tree root/{dir1/{f1}, f_root} and the overlay tree
  root/{dir1/{f2}, dir2/{f3}, f_add} with pairwise distinct keys, \<open>Union\<close> returns the
  control root and no error; the merged root has exactly the four children dir1, f_root,
  dir2, f_add, in that order, and the merged dir1 exactly the two children f1 and f2.
  The merged tree holds the control's four nodes and the overlay's nodes f2, dir2, f3
  and f_add, each once (the overlay's root and dir1 are merged into the control's).
  Every key path of either input is a path of the merged tree, and the merged tree has
  no path twice.
\<close>

theorem Union_two_graphs:
  assumes "distinct [dir1, dir2, f1, f2, f3, f_root, f_add]"
  shows "\<exists>h'. Union_fuel 2 opts (two_graphs root dir1 f1 f_root f2 dir2 f3 f_add) 0 [4] =
               Some (Inr 0, h') \<and>
     Children (h' 0) = [1, 3, 7, 9] \<and> keys_of h' (Children (h' 0)) = [dir1, f_root, dir2, f_add] \<and>
     length (Children (h' 0)) = 4 \<and>
     Children (h' 1) = [2, 6] \<and> keys_of h' (Children (h' 1)) = [f1, f2] \<and>
     length (Children (h' 1)) = 2 \<and>
     nodes 2 h' 0 = [0, 1, 2, 6, 3, 7, 8, 9] \<and>
     distinct (paths 2 h' 0) \<and>
     set (paths 2 h' 0) =
       set (paths 2 (two_graphs root dir1 f1 f_root f2 dir2 f3 f_add) 0) \<union>
       set (paths 2 (two_graphs root dir1 f1 f_root f2 dir2 f3 f_add) 4)"
proof -
  from assms have "distinct [dir1, f_root, dir2, f_add]" "f1 \<noteq> f2" by auto
  from two_graphs_paths [OF this, of opts root f3] obtain h' where
    u: "Union_fuel 2 opts (two_graphs root dir1 f1 f_root f2 dir2 f3 f_add) 0 [4] = Some (Inr 0, h')"
    and c0: "Children (h' 0) = [1, 3, 7, 9]" and c1: "Children (h' 1) = [2, 6]"
    and k0: "keys_of h' (Children (h' 0)) = [dir1, f_root, dir2, f_add]"
    and k1: "keys_of h' (Children (h' 1)) = [f1, f2]"
    and p: "paths 2 h' 0 =
       [[root], [root, dir1], [root, dir1, f1], [root, dir1, f2], [root, f_root],
        [root, dir2], [root, dir2, f3], [root, f_add]]"
    and n: "nodes 2 h' 0 = [0, 1, 2, 6, 3, 7, 8, 9]"
    by blast
  have d: "distinct (paths 2 h' 0)" unfolding p using assms by auto
  have s: "set (paths 2 h' 0) =
       set (paths 2 (two_graphs root dir1 f1 f_root f2 dir2 f3 f_add) 0) \<union>
       set (paths 2 (two_graphs root dir1 f1 f_root f2 dir2 f3 f_add) 4)"
    unfolding p two_graphs_input_paths by auto
  have l0: "length (Children (h' 0)) = 4" unfolding c0 by simp
  have l1: "length (Children (h' 1)) = 2" unfolding c1 by simp
  show ?thesis by (intro exI [of _ h'] conjI; fact)
qed

theorem Union_two_graphs_witness:
  "\<exists>h'. Union_fuel 2 \<lparr>DefaultCollisionAction = ErrorOnCollision\<rparr>
          (two_graphs ''root'' ''dir1'' ''file1_control.txt'' ''file_control_root.txt''
             ''file2_add.txt'' ''dir2_add'' ''file3_add_in_dir2.txt'' ''file_add_root.txt'') 0 [4] =
        Some (Inr 0, h') \<and>
     keys_of h' (Children (h' 0)) =
       [''dir1'', ''file_control_root.txt'', ''dir2_add'', ''file_add_root.txt''] \<and>
     keys_of h' (Children (h' 1)) = [''file1_control.txt'', ''file2_add.txt'']"
  using Union_two_graphs [of "''dir1''" "''dir2_add''" "''file1_control.txt''" "''file2_add.txt''"
      "''file3_add_in_dir2.txt''" "''file_control_root.txt''" "''file_add_root.txt''"
      "\<lparr>DefaultCollisionAction = ErrorOnCollision\<rparr>" "''root''"]
  by auto

text \<open>
  C7: after every successful \<open>Union\<close> the children the control node had are the first
  children of the merged control node, in their order, and whatever is new follows them.
  On trees (a graded heap, the control and the overlays distinct nodes of one level) the
  new children come from the overlays' children lists read overlay by overlay in
  argument order and child by child in each overlay's order, and for a directory they
  are exactly the children of the combined overlay view whose key the control node did
  not have.
\<close>

theorem Union_child_order:
  assumes "Union_fuel n opts h control add = Some (Inr r, h')"
  shows "r = control \<and> prefix (Children (h control)) (Children (h' control)) \<and>
    (graded lvl D h \<and> (\<forall>a \<in> set add. lvl a = lvl control) \<and> distinct (control # add) \<longrightarrow>
      (\<exists>new. Children (h' control) = Children (h control) @ new \<and>
         subseq new (concat (map (\<lambda>a. Children (h a)) add)) \<and>
         new = (if is_dir (h control)
                then filter (\<lambda>c. Key (h c) \<notin> set (keys_of h (Children (h control))))
                       (overlay_children h add)
                else [])))"
proof (intro conjI impI)
  show "r = control" using assms by (rule Union_fuel_Inr(1))
  have "heap_ext h h'" using Union_fuel_sound [of n] assms unfolding rec_sound_def by blast
  then have "heap_grows h h'" by (rule heap_ext_grows)
  then show "prefix (Children (h control)) (Children (h' control))"
    by (simp add: heap_grows_def)
next
  assume wf: "graded lvl D h \<and> (\<forall>a \<in> set add. lvl a = lvl control) \<and> distinct (control # add)"
  let ?new = "if is_dir (h control)
              then filter (\<lambda>c. Key (h c) \<notin> set (keys_of h (Children (h control))))
                     (overlay_children h add)
              else []"
  have "Children (h' control) = overlay_children h (control # add)"
    using Union_children_exact [OF assms, of lvl D 0] wf by simp
  then have 1: "Children (h' control) = Children (h control) @ ?new" by simp
  have "subseq ?new (overlay_children h add)" by simp
  then have 2: "subseq ?new (concat (map (\<lambda>a. Children (h a)) add))"
    using subseq_overlay_children by (rule subseq_order.trans)
  from 1 2 show "\<exists>new. Children (h' control) = Children (h control) @ new \<and>
         subseq new (concat (map (\<lambda>a. Children (h a)) add)) \<and>
         new = (if is_dir (h control)
                then filter (\<lambda>c. Key (h c) \<notin> set (keys_of h (Children (h control))))
                       (overlay_children h add)
                else [])" by blast
qed

theorem Union_child_order_witness:
  "\<exists>h'. Union_fuel 2 \<lparr>DefaultCollisionAction = ErrorOnCollision\<rparr>
          (two_graphs ''root'' ''dir1'' ''file1_control.txt'' ''file_control_root.txt''
             ''file2_add.txt'' ''dir2_add'' ''file3_add_in_dir2.txt'' ''file_add_root.txt'') 0 [4] =
        Some (Inr 0, h') \<and>
     Children (h' 0) = [1, 3] @ [7, 9] \<and> subseq [7, 9] [5, 7, 9 :: addr]"
proof -
  let ?h = "two_graphs ''root'' ''dir1'' ''file1_control.txt'' ''file_control_root.txt''
             ''file2_add.txt'' ''dir2_add'' ''file3_add_in_dir2.txt'' ''file_add_root.txt''"
  let ?opts = "\<lparr>DefaultCollisionAction = ErrorOnCollision\<rparr>"
  have "distinct [''dir1'', ''file_control_root.txt'', ''dir2_add'', ''file_add_root.txt'']"
    "''file1_control.txt'' \<noteq> ''file2_add.txt''" by simp_all
  from two_graphs_paths [OF this, of ?opts "''root''" "''file3_add_in_dir2.txt''"] obtain h' where
    u: "Union_fuel 2 ?opts ?h 0 [4] = Some (Inr 0, h')" and c0: "Children (h' 0) = [1, 3, 7, 9]"
    by blast
  have l: "\<forall>a \<in> set [4]. tree_level [0, 4] [1, 3, 5, 7, 9] a = tree_level [0, 4] [1, 3, 5, 7, 9] 0"
    by (simp add: tree_level_def)
  have d: "distinct [0, 4 :: addr]" by simp
  from Union_child_order [OF u, of "tree_level [0, 4] [1, 3, 5, 7, 9]" 2] graded_two_graphs l d
  obtain new where
    "Children (h' 0) = Children (?h 0) @ new" "subseq new (concat (map (\<lambda>a. Children (?h a)) [4]))"
    by blast
  then have "Children (h' 0) = [1, 3] @ new" "subseq new [5, 7, 9]"
    by (simp_all add: two_graphs_children)
  with c0 have "Children (h' 0) = [1, 3] @ [7, 9]" "subseq [7, 9] [5, 7, 9 :: addr]" by auto
  with u show ?thesis by blast
qed




end
